theory Spec2Isabelle
  imports Complex_Main
begin

unbundle bit_operations_syntax

section \<open>Constants and basic types (constants.ts, @types/index.ts)\<close>

text \<open>
  \<^verbatim>\<open>InodeNumber = bigint | number\<close>: an integer. \<^verbatim>\<open>WatchrStats\<close> stores an inode as a
  \<^verbatim>\<open>number\<close> when it is at most \<^verbatim>\<open>Number.MAX_SAFE_INTEGER\<close> and as a \<^verbatim>\<open>bigint\<close>
  otherwise, so every integer has exactly one representation and key equality in a
  \<^verbatim>\<open>Map\<close> is equality of integers. A \<^verbatim>\<open>Path\<close> is a string.
\<close>

type_synonym InodeNumber = int
type_synonym Path = string

datatype InodeType = DIR | FILE

datatype FileSystemEvent = ADD | ADD_DIR | CHANGE | RENAME | RENAME_DIR | UNLINK | UNLINK_DIR

definition renameTimeout :: int where
  "renameTimeout = 250"

definition fileDescriptorLimit :: nat where
  "fileDescriptorLimit = 2048"

section \<open>SetMultiMap (set-multi-map.ts)\<close>

text \<open>
  A \<^verbatim>\<open>Map<K, Set<V>>\<close>. A JavaScript \<^verbatim>\<open>Set\<close> iterates in insertion order, so a value
  set is a list without duplicates; the map itself is only read and written by key.
  The sets are tracked by value: this is exact as long as no \<^verbatim>\<open>Set\<close> object handed to
  \<^verbatim>\<open>set\<close> is used again by the caller, which is the case for all uses below.
\<close>

type_synonym ('k, 'v) SetMultiMap = "'k \<rightharpoonup> 'v list"

text \<open>\<^verbatim>\<open>Set.prototype.add\<close> and \<^verbatim>\<open>Set.prototype.delete\<close>.\<close>

definition set_add :: "'v \<Rightarrow> 'v list \<Rightarrow> 'v list" where
  "set_add v vs = (if v \<in> set vs then vs else vs @ [v])"

definition set_delete :: "'v \<Rightarrow> 'v list \<Rightarrow> 'v list" where
  "set_delete v vs = removeAll v vs"

text \<open>The second argument of \<^verbatim>\<open>set\<close> is a single value or a whole \<^verbatim>\<open>Set\<close>.\<close>

datatype 'v set_arg = Single 'v | Whole "'v list"

text \<open>
  \<^verbatim>\<open>super.set(key, value instanceof Set ? value : (super.get(key) ?? new Set<V>()).add(value))\<close>
\<close>

definition smm_set :: "'k \<Rightarrow> 'v set_arg \<Rightarrow> ('k, 'v) SetMultiMap \<Rightarrow> ('k, 'v) SetMultiMap" where
  "smm_set key val m =
     (case val of
        Whole vs \<Rightarrow> m(key \<mapsto> vs)
      | Single v \<Rightarrow> m(key \<mapsto> set_add v (case m key of None \<Rightarrow> [] | Some vs \<Rightarrow> vs)))"

text \<open>\<^verbatim>\<open>find(key, iterator)\<close>: the first value of the key's set that satisfies the iterator.\<close>

definition smm_find :: "'k \<Rightarrow> ('v \<Rightarrow> bool) \<Rightarrow> ('k, 'v) SetMultiMap \<Rightarrow> 'v option" where
  "smm_find key iterator m =
     (case m key of None \<Rightarrow> None | Some vs \<Rightarrow> List.find iterator vs)"

text \<open>
  \<^verbatim>\<open>deleteValue(key, value)\<close> returns whether something was removed, and the new map.
  With \<^verbatim>\<open>value === undefined\<close> it is \<^verbatim>\<open>Map.prototype.delete(key)\<close>.
\<close>

definition smm_deleteValue ::
  "'k \<Rightarrow> 'v option \<Rightarrow> ('k, 'v) SetMultiMap \<Rightarrow> bool \<times> ('k, 'v) SetMultiMap" where
  "smm_deleteValue key val m =
     (case val of
        None \<Rightarrow> (m key \<noteq> None, m(key := None))
      | Some v \<Rightarrow>
          (case m key of
             Some vs \<Rightarrow>
               (let deleted = (v \<in> set vs); vs' = set_delete v vs
                in if length vs' = 0 then (deleted, m(key := None))
                   else (deleted, m(key \<mapsto> vs')))
           | None \<Rightarrow> (False, m)))"

section \<open>Entry metadata (watchr-stats.ts)\<close>

text \<open>The part of Node's \<^verbatim>\<open>BigIntStats\<close> that the watcher reads.\<close>

record Stats =
  ino :: int
  stat_size :: int
  stat_isFile :: bool
  stat_isDirectory :: bool
  stat_isSymbolicLink :: bool

record WatchrStats =
  inodeNumber :: InodeNumber
  wsize :: int
  isFile :: bool
  isDirectory :: bool
  isSymbolicLink :: bool

text \<open>
  The constructor of \<^verbatim>\<open>WatchrStats\<close>. \<^verbatim>\<open>Number(stats.ino)\<close> is taken only below
  \<^verbatim>\<open>MAX_SAFE_INTEGER\<close>, where it is exact. \<^verbatim>\<open>Number(stats.size)\<close> is exact below
  \<^verbatim>\<open>2^53\<close>; no property below reads the size.
\<close>

definition new_WatchrStats :: "Stats \<Rightarrow> WatchrStats" where
  "new_WatchrStats stats =
     \<lparr> inodeNumber = ino stats, wsize = stat_size stats, isFile = stat_isFile stats,
       isDirectory = stat_isDirectory stats, isSymbolicLink = stat_isSymbolicLink stats \<rparr>"

section \<open>FileSystemStateManager (file-system-state-manager.ts)\<close>

text \<open>
  \<^verbatim>\<open>targetInodes\<close> is a plain object per event whose property names are the paths;
  \<^verbatim>\<open>_paths\<close> is a \<^verbatim>\<open>SetMultiMap\<close> and \<^verbatim>\<open>_stats\<close> a \<^verbatim>\<open>Map\<close>. A plain object is
  modelled as a map. This is exact for every path that is not the name of a member of
  \<^verbatim>\<open>Object.prototype\<close> (such as \<^verbatim>\<open>constructor\<close>, \<^verbatim>\<open>toString\<close> or \<^verbatim>\<open>__proto__\<close>): for
  such a name the source reads the inherited member when the path was not recorded, and
  the destructuring in \<^verbatim>\<open>getInodeNumber\<close> then throws a \<^verbatim>\<open>TypeError\<close>, where the map
  has no entry. The watcher passes absolute paths, which are no such names; the model
  covers those paths only.
\<close>

record FileSystemStateManager =
  targetInodes :: "FileSystemEvent \<rightharpoonup> (Path \<rightharpoonup> InodeNumber \<times> InodeType)"
  paths :: "(InodeNumber, Path) SetMultiMap"
  stats :: "Path \<rightharpoonup> WatchrStats"

definition new_FileSystemStateManager :: FileSystemStateManager where
  "new_FileSystemStateManager = \<lparr> targetInodes = Map.empty, paths = Map.empty, stats = Map.empty \<rparr>"

text \<open>
  \<^verbatim>\<open>getInodeNumber(targetPath, event, type?)\<close>. Both inode types are truthy, so
  \<^verbatim>\<open>type && inodeType !== type\<close> holds when a type is given and the recorded type is
  missing or different. The lookup \<^verbatim>\<open>this.targetInodes[event]?.[targetPath] ?? []\<close> is
  that of the map (for a path that names a member of \<^verbatim>\<open>Object.prototype\<close> and was not
  recorded, the source throws instead of returning \<^verbatim>\<open>undefined\<close>, see above).
\<close>

definition getInodeNumber ::
  "FileSystemStateManager \<Rightarrow> Path \<Rightarrow> FileSystemEvent \<Rightarrow> InodeType option \<Rightarrow> InodeNumber option" where
  "getInodeNumber m targetPath event type =
     (let entry = (case targetInodes m event of None \<Rightarrow> None | Some rec \<Rightarrow> rec targetPath);
          inodeNumber' = map_option fst entry;
          inodeType = map_option snd entry
      in if type \<noteq> None \<and> inodeType \<noteq> type then None else inodeNumber')"

text \<open>
  The private \<^verbatim>\<open>getStats\<close>: the result of \<^verbatim>\<open>FileSystem.getStats\<close> is kept only for a
  regular file or a directory.
\<close>

definition fsm_getStats :: "Stats option \<Rightarrow> WatchrStats option" where
  "fsm_getStats raw =
     (case raw of
        None \<Rightarrow> None
      | Some st \<Rightarrow> if \<not> (stat_isFile st \<or> stat_isDirectory st) then None
                   else Some (new_WatchrStats st))"

text \<open>
  \<^verbatim>\<open>determineEvents(previousStats, nextStats)\<close>: the switch on the four-bit pattern, with
  its cases in the order of the source.
\<close>

definition determineEvents ::
  "WatchrStats option \<Rightarrow> WatchrStats option \<Rightarrow> (FileSystemEvent \<times> WatchrStats) list" where
  "determineEvents previousStats nextStats =
     (let wasFile = (case previousStats of None \<Rightarrow> False | Some p \<Rightarrow> isFile p);
          isFile' = (case nextStats of None \<Rightarrow> False | Some n \<Rightarrow> isFile n);
          pattern = (if previousStats \<noteq> None then 8 else 0) OR (if nextStats \<noteq> None then 4 else 0)
                    OR (if wasFile then 2 else 0) OR (if isFile' then (1::nat) else 0)
      in if pattern = 4 then [(ADD_DIR, the nextStats)]
         else if pattern = 5 then [(ADD, the nextStats)]
         else if pattern = 8 then [(UNLINK_DIR, the previousStats)]
         else if pattern = 10 then [(UNLINK, the previousStats)]
         else if pattern = 15 then [(CHANGE, the nextStats)]
         else if pattern = 14 then [(UNLINK, the previousStats), (ADD_DIR, the nextStats)]
         else if pattern = 13 then [(UNLINK_DIR, the previousStats), (ADD, the nextStats)]
         else if pattern = 12 then [(UNLINK_DIR, the previousStats), (ADD_DIR, the nextStats)]
         else [])"

definition updateInode ::
  "Path \<Rightarrow> FileSystemEvent \<Rightarrow> WatchrStats \<Rightarrow> FileSystemStateManager \<Rightarrow> FileSystemStateManager" where
  "updateInode targetPath event st m =
     (let eventInodes = (case targetInodes m event of None \<Rightarrow> Map.empty | Some rec \<Rightarrow> rec)
      in m\<lparr> targetInodes := (targetInodes m)(event \<mapsto>
              eventInodes(targetPath \<mapsto> (inodeNumber st, if isFile st then FILE else DIR))) \<rparr>)"

fun updateInodes ::
  "Path \<Rightarrow> (FileSystemEvent \<times> WatchrStats) list \<Rightarrow> FileSystemStateManager \<Rightarrow> FileSystemStateManager" where
  "updateInodes targetPath [] m = m"
| "updateInodes targetPath ((event, st) # events) m =
     updateInodes targetPath events (updateInode targetPath event st m)"

text \<open>
  \<^verbatim>\<open>updateStats(targetPath, stats?)\<close>. When the path has no cached metadata, the value is
  deleted under the key \<^verbatim>\<open>-1\<close>.
\<close>

definition updateStats ::
  "Path \<Rightarrow> WatchrStats option \<Rightarrow> FileSystemStateManager \<Rightarrow> FileSystemStateManager" where
  "updateStats targetPath st m =
     (case st of
        Some s \<Rightarrow>
          m\<lparr> paths := smm_set (inodeNumber s) (Single targetPath) (paths m),
             stats := (stats m)(targetPath \<mapsto> s) \<rparr>
      | None \<Rightarrow>
          m\<lparr> paths := snd (smm_deleteValue
                  (case stats m targetPath of None \<Rightarrow> - 1 | Some p \<Rightarrow> inodeNumber p)
                  (Some targetPath) (paths m)),
             stats := (stats m)(targetPath := None) \<rparr>)"

text \<open>
  \<^verbatim>\<open>update(targetPath)\<close>. The stat call is the only suspension point and the cache is read
  after it has returned, so the model takes the result \<open>raw\<close> of \<^verbatim>\<open>FileSystem.getStats\<close>
  as an argument and \<open>m\<close> is the state at that moment. It returns the event types and
  the new state.
\<close>

definition update ::
  "Path \<Rightarrow> Stats option \<Rightarrow> FileSystemStateManager \<Rightarrow> FileSystemEvent list \<times> FileSystemStateManager" where
  "update targetPath raw m =
     (let nextStats = fsm_getStats raw;
          events = determineEvents (stats m targetPath) nextStats;
          m1 = updateStats targetPath nextStats m;
          m2 = updateInodes targetPath events m1
      in (map fst events, m2))"

text \<open>
  The two steps of a call of the asynchronous \<^verbatim>\<open>update\<close>. The call itself runs up to
  \<^verbatim>\<open>await this.getStats(targetPath)\<close> and neither reads nor writes the state; other
  calls can run while it is suspended. What it leaves behind is its path; \<open>su_cached\<close>
  is an observation, not state of the source: the metadata that was cached for the path
  when the call was made. When the stat result arrives, the rest of the method runs on
  the state of that moment.
\<close>

record suspended_update =
  su_targetPath :: Path
  su_cached :: "WatchrStats option"

definition update_call :: "Path \<Rightarrow> FileSystemStateManager \<Rightarrow> suspended_update" where
  "update_call targetPath m = \<lparr> su_targetPath = targetPath, su_cached = stats m targetPath \<rparr>"

definition update_resume ::
  "suspended_update \<Rightarrow> Stats option \<Rightarrow> FileSystemStateManager \<Rightarrow>
   FileSystemEvent list \<times> FileSystemStateManager" where
  "update_resume call raw m = update (su_targetPath call) raw m"

definition fsm_reset :: "FileSystemStateManager \<Rightarrow> FileSystemStateManager" where
  "fsm_reset m = m\<lparr> paths := Map.empty, stats := Map.empty, targetInodes := Map.empty \<rparr>"

text \<open>
  The operations that change the state: a call of \<^verbatim>\<open>update\<close> whose stat result has
  arrived, and \<^verbatim>\<open>reset\<close>.
\<close>

datatype fsm_op = Update Path "Stats option" | Reset

fun fsm_step :: "fsm_op \<Rightarrow> FileSystemStateManager \<Rightarrow> FileSystemStateManager" where
  "fsm_step (Update targetPath raw) m = snd (update_resume (update_call targetPath m) raw m)"
| "fsm_step Reset m = fsm_reset m"

fun fsm_run :: "fsm_op list \<Rightarrow> FileSystemStateManager \<Rightarrow> FileSystemStateManager" where
  "fsm_run [] m = m"
| "fsm_run (op # ops) m = fsm_run ops (fsm_step op m)"

section \<open>RetryQueue (retry-queue.ts)\<close>

text \<open>
  The throttle of the stat calls. A resolver is a closure created by one call of
  \<^verbatim>\<open>schedule\<close>; it is identified by the number of that call (\<open>nextResolver\<close> counts
  them). The two queues are JavaScript \<^verbatim>\<open>Set\<close>s of resolvers in insertion order.
  Two fields are observations, not state of the source: \<open>called\<close> lists the resolvers
  that were invoked (invoking a resolver resolves the promise of its \<^verbatim>\<open>schedule\<close> call:
  the caller is admitted) and \<open>maxActive\<close> is the largest size the active set has had
  after any \<^verbatim>\<open>activeQueue.add\<close>.
\<close>

record RetryQueue =
  intervalId :: bool
  activeQueue :: "nat list"
  pendingQueue :: "nat list"
  nextResolver :: nat
  called :: "nat list"
  maxActive :: nat

definition new_RetryQueue :: RetryQueue where
  "new_RetryQueue = \<lparr> intervalId = False, activeQueue = [], pendingQueue = [],
     nextResolver = 0, called = [], maxActive = 0 \<rparr>"

text \<open>\<^verbatim>\<open>reset()\<close> clears the polling interval when there is one.\<close>

definition rq_reset :: "RetryQueue \<Rightarrow> RetryQueue" where
  "rq_reset q = (if \<not> intervalId q then q else q\<lparr> intervalId := False \<rparr>)"

text \<open>
  The body of the loop of \<^verbatim>\<open>processQueue\<close> after its guard:
  \<^verbatim>\<open>pendingQueue.delete(fn); activeQueue.add(fn); fn()\<close>.
\<close>

definition admit :: "nat \<Rightarrow> RetryQueue \<Rightarrow> RetryQueue" where
  "admit fn q =
     (let active = set_add fn (activeQueue q)
      in q\<lparr> pendingQueue := set_delete fn (pendingQueue q),
            activeQueue := active,
            maxActive := max (maxActive q) (length active),
            called := called q @ [fn] \<rparr>)"

text \<open>
  \<^verbatim>\<open>for (const fn of this.pendingQueue)\<close>: the loop deletes only the element it is
  visiting and a resolver does not call back into the queue, so it visits the elements
  the set had when the loop began, in order. The boolean tells whether the loop left
  the function by its \<^verbatim>\<open>return\<close>.
\<close>

fun processQueue_loop :: "nat list \<Rightarrow> RetryQueue \<Rightarrow> bool \<times> RetryQueue" where
  "processQueue_loop [] q = (False, q)"
| "processQueue_loop (fn # fns) q =
     (if fileDescriptorLimit \<le> length (activeQueue q) then (True, q)
      else processQueue_loop fns (admit fn q))"

definition processQueue :: "RetryQueue \<Rightarrow> RetryQueue" where
  "processQueue q =
     (if fileDescriptorLimit \<le> length (activeQueue q) then q
      else if length (pendingQueue q) = 0 then rq_reset q
      else (case processQueue_loop (pendingQueue q) q of
              (True, q') \<Rightarrow> q'
            | (False, q') \<Rightarrow> if length (pendingQueue q') = 0 then rq_reset q' else q'))"

text \<open>
  \<^verbatim>\<open>add(fn)\<close>. The test \<^verbatim>\<open>activeQueue.size < fileDescriptorLimit / 2\<close> divides in
  floating point; for a whole size it is \<open>2 * size < fileDescriptorLimit\<close>.
\<close>

definition rq_add :: "nat \<Rightarrow> RetryQueue \<Rightarrow> RetryQueue" where
  "rq_add fn q =
     (let q1 = q\<lparr> pendingQueue := set_add fn (pendingQueue q) \<rparr>
      in if 2 * length (activeQueue q1) < fileDescriptorLimit then processQueue q1
         else if intervalId q1 then q1
         else q1\<lparr> intervalId := True \<rparr>)"

text \<open>\<^verbatim>\<open>schedule()\<close> creates a resolver and adds it.\<close>

definition schedule :: "RetryQueue \<Rightarrow> RetryQueue" where
  "schedule q = rq_add (nextResolver q) (q\<lparr> nextResolver := Suc (nextResolver q) \<rparr>)"

text \<open>The function a caller receives on admission: \<^verbatim>\<open>activeQueue.delete(resolver)\<close>.\<close>

definition release :: "nat \<Rightarrow> RetryQueue \<Rightarrow> RetryQueue" where
  "release fn q = q\<lparr> activeQueue := set_delete fn (activeQueue q) \<rparr>"

text \<open>One firing of the interval timer, which exists while \<open>intervalId\<close> is set.\<close>

definition rq_tick :: "RetryQueue \<Rightarrow> RetryQueue" where
  "rq_tick q = (if intervalId q then processQueue q else q)"

datatype rq_op = Schedule | Release nat | Tick

fun rq_step :: "rq_op \<Rightarrow> RetryQueue \<Rightarrow> RetryQueue" where
  "rq_step Schedule q = schedule q"
| "rq_step (Release fn) q = release fn q"
| "rq_step Tick q = rq_tick q"

fun rq_run :: "rq_op list \<Rightarrow> RetryQueue \<Rightarrow> RetryQueue" where
  "rq_run [] q = q"
| "rq_run (op # ops) q = rq_run ops (rq_step op q)"

section \<open>The stat gateway: FileSystem.getStats (file-system.ts, decorators/timeout.ts)\<close>

text \<open>
  What \<^verbatim>\<open>catch\<close> can receive from the stat call: an \<^verbatim>\<open>Error\<close> with an optional
  \<^verbatim>\<open>code\<close>, or a thrown value that is not an instance of \<^verbatim>\<open>Error\<close>.
\<close>

datatype thrown = NodeError "string option" | NotAnError






text \<open>
  The environment of one call of \<^verbatim>\<open>FileSystem.getStats\<close>: after how many milliseconds
  the throttle admits the call (if ever), and for the \<open>n\<close>-th attempt the outcome of the
  stat system call with its duration in milliseconds, and the value of \<^verbatim>\<open>Math.random()\<close>.
\<close>

record stat_env =
  admission :: "nat option"
  stat_call :: "nat \<Rightarrow> (thrown + Stats) \<times> nat"
  random :: "nat \<Rightarrow> real"




section \<open>FileSystemLocker (file-system-locker.ts)\<close>

text \<open>
  The locks hold closures. A closure is represented by the variables it captures:
  every call of \<^verbatim>\<open>addLock\<close> or \<^verbatim>\<open>unlinkLock\<close> that registers a lock creates its
  closures over the inode number, the path and the inode type of the call (the type
  selects \<^verbatim>\<open>lockEvent\<close> and \<^verbatim>\<open>fileSystemLocker\<close>). Two calls create different function
  objects even with equal captured values; \<open>cid\<close> numbers the calls.
\<close>

record closure_env =
  cid :: nat
  c_inodeNumber :: InodeNumber
  c_targetPath :: Path
  c_inodeType :: InodeType

text \<open>
  \<open>add_locks\<close> maps an inode to the closure \<^verbatim>\<open>resolve\<close> of an \<^verbatim>\<open>addLock\<close> call,
  \<open>unlink_locks\<close> to the closure \<^verbatim>\<open>overridden\<close> of an \<^verbatim>\<open>unlinkLock\<close> call.
\<close>

record FileSystemLocker =
  add_locks :: "InodeNumber \<rightharpoonup> closure_env"
  unlink_locks :: "InodeNumber \<rightharpoonup> closure_env"

definition new_FileSystemLocker :: FileSystemLocker where
  "new_FileSystemLocker = \<lparr> add_locks = Map.empty, unlink_locks = Map.empty \<rparr>"

definition locker_addLock :: "InodeNumber \<Rightarrow> closure_env \<Rightarrow> FileSystemLocker \<Rightarrow> FileSystemLocker" where
  "locker_addLock inodeNumber' callback l = l\<lparr> add_locks := (add_locks l)(inodeNumber' \<mapsto> callback) \<rparr>"

definition locker_addUnlink :: "InodeNumber \<Rightarrow> closure_env \<Rightarrow> FileSystemLocker \<Rightarrow> FileSystemLocker" where
  "locker_addUnlink inodeNumber' producer l = l\<lparr> unlink_locks := (unlink_locks l)(inodeNumber' \<mapsto> producer) \<rparr>"

definition locker_removeLock :: "InodeNumber \<Rightarrow> FileSystemLocker \<Rightarrow> FileSystemLocker" where
  "locker_removeLock inodeNumber' l = l\<lparr> add_locks := (add_locks l)(inodeNumber' := None) \<rparr>"

definition locker_removeUnlink :: "InodeNumber \<Rightarrow> FileSystemLocker \<Rightarrow> FileSystemLocker" where
  "locker_removeUnlink inodeNumber' l = l\<lparr> unlink_locks := (unlink_locks l)(inodeNumber' := None) \<rparr>"

definition locker_getLock :: "InodeNumber \<Rightarrow> FileSystemLocker \<Rightarrow> closure_env option" where
  "locker_getLock inodeNumber' l = add_locks l inodeNumber'"

definition locker_getUnlink :: "InodeNumber \<Rightarrow> FileSystemLocker \<Rightarrow> closure_env option" where
  "locker_getUnlink inodeNumber' l = unlink_locks l inodeNumber'"

definition locker_reset :: "FileSystemLocker \<Rightarrow> FileSystemLocker" where
  "locker_reset l = l\<lparr> add_locks := Map.empty, unlink_locks := Map.empty \<rparr>"

section \<open>LockResolver (lock-resolver.ts) and FileRenameHandler (file-rename-handler.ts)\<close>

text \<open>The functions registered with \<^verbatim>\<open>LockResolver\<close> are the closures \<^verbatim>\<open>free\<close>.\<close>

datatype Resolver = AddFree closure_env | UnlinkFree closure_env

text \<open>
  An emitted event with the clock reading of the turn that emitted it (the time is an
  observation; \<^verbatim>\<open>emitEvent\<close> receives the event and the paths).
\<close>

type_synonym Emitted = "int \<times> FileSystemEvent \<times> Path \<times> Path option"

text \<open>
  The handler with the state of the static class \<^verbatim>\<open>LockResolver\<close>: \<open>resolvers\<close> is its
  \<^verbatim>\<open>Map\<close> from resolver to deadline in insertion order, \<open>lr_intervalId\<close> tells whether
  its interval timer is set. \<open>emitted\<close> records the calls of the constructor's
  \<^verbatim>\<open>emitEvent\<close> callback, \<open>nextClosure\<close> numbers the closures.
\<close>

record FileRenameHandler =
  fileSystemStateManager :: FileSystemStateManager
  fileLocks :: FileSystemLocker
  directoryLocks :: FileSystemLocker
  resolvers :: "(Resolver \<times> int) list"
  lr_intervalId :: bool
  nextClosure :: nat
  emitted :: "Emitted list"

definition new_FileRenameHandler :: FileRenameHandler where
  "new_FileRenameHandler = \<lparr> fileSystemStateManager = new_FileSystemStateManager,
     fileLocks = new_FileSystemLocker, directoryLocks = new_FileSystemLocker,
     resolvers = [], lr_intervalId = False, nextClosure = 0, emitted = [] \<rparr>"


definition emitEvent :: "int \<Rightarrow> FileSystemEvent \<Rightarrow> Path \<Rightarrow> Path option \<Rightarrow> FileRenameHandler \<Rightarrow> FileRenameHandler" where
  "emitEvent now event targetPath targetPathNext w =
     w\<lparr> emitted := emitted w @ [(now, event, targetPath, targetPathNext)] \<rparr>"

text \<open>\<^verbatim>\<open>Map.prototype.set\<close>: a present key keeps its place, a new one goes last.\<close>

definition map_set :: "'k \<Rightarrow> 'v \<Rightarrow> ('k \<times> 'v) list \<Rightarrow> ('k \<times> 'v) list" where
  "map_set k v kvs =
     (if k \<in> fst ` set kvs then map (\<lambda>(k', v'). if k' = k then (k', v) else (k', v')) kvs
      else kvs @ [(k, v)])"

definition LockResolver_init :: "FileRenameHandler \<Rightarrow> FileRenameHandler" where
  "LockResolver_init w = (if lr_intervalId w then w else w\<lparr> lr_intervalId := True \<rparr>)"

text \<open>\<^verbatim>\<open>LockResolver.add(fn, timeout)\<close>, where \<open>now\<close> is the value of \<^verbatim>\<open>Date.now()\<close>.\<close>

definition LockResolver_add :: "Resolver \<Rightarrow> int \<Rightarrow> int \<Rightarrow> FileRenameHandler \<Rightarrow> FileRenameHandler" where
  "LockResolver_add fn timeout' now w =
     LockResolver_init (w\<lparr> resolvers := map_set fn (now + timeout') (resolvers w) \<rparr>)"

definition LockResolver_remove :: "Resolver \<Rightarrow> FileRenameHandler \<Rightarrow> FileRenameHandler" where
  "LockResolver_remove fn w = w\<lparr> resolvers := filter (\<lambda>(fn', timestamp). fn' \<noteq> fn) (resolvers w) \<rparr>"

definition LockResolver_reset :: "FileRenameHandler \<Rightarrow> FileRenameHandler" where
  "LockResolver_reset w = (if \<not> lr_intervalId w then w else w\<lparr> lr_intervalId := False \<rparr>)"

text \<open>
  \<^verbatim>\<open>lockEvent\<close> is \<^verbatim>\<open>FileEvent\<close> for a file and \<^verbatim>\<open>DirectoryEvent\<close> for a directory;
  \<^verbatim>\<open>DirectoryEvent\<close> has no \<^verbatim>\<open>change\<close>.
\<close>

definition lockEvent_add :: "InodeType \<Rightarrow> FileSystemEvent" where
  "lockEvent_add t = (if t = FILE then ADD else ADD_DIR)"

definition lockEvent_rename :: "InodeType \<Rightarrow> FileSystemEvent" where
  "lockEvent_rename t = (if t = FILE then RENAME else RENAME_DIR)"

definition lockEvent_unlink :: "InodeType \<Rightarrow> FileSystemEvent" where
  "lockEvent_unlink t = (if t = FILE then UNLINK else UNLINK_DIR)"

definition lockEvent_change :: "InodeType \<Rightarrow> FileSystemEvent option" where
  "lockEvent_change t = (if t = FILE then Some CHANGE else None)"

text \<open>\<^verbatim>\<open>inodeType === InodeType.FILE ? this.fileLocks : this.directoryLocks\<close>\<close>

definition fileSystemLocker :: "InodeType \<Rightarrow> FileRenameHandler \<Rightarrow> FileSystemLocker" where
  "fileSystemLocker t w = (if t = FILE then fileLocks w else directoryLocks w)"

definition with_fileSystemLocker ::
  "InodeType \<Rightarrow> (FileSystemLocker \<Rightarrow> FileSystemLocker) \<Rightarrow> FileRenameHandler \<Rightarrow> FileRenameHandler" where
  "with_fileSystemLocker t f w =
     (if t = FILE then w\<lparr> fileLocks := f (fileLocks w) \<rparr>
      else w\<lparr> directoryLocks := f (directoryLocks w) \<rparr>)"

text \<open>
  The closure \<^verbatim>\<open>emit\<close> of \<^verbatim>\<open>addLock\<close>. An empty path is falsy in
  \<^verbatim>\<open>if (otherPath)\<close>.
\<close>

definition emit :: "InodeNumber option \<Rightarrow> Path \<Rightarrow> InodeType \<Rightarrow> int \<Rightarrow> FileRenameHandler \<Rightarrow> FileRenameHandler" where
  "emit inodeNumber' targetPath t now w =
     (case smm_find (case inodeNumber' of None \<Rightarrow> - 1 | Some i \<Rightarrow> i) (\<lambda>path. path \<noteq> targetPath)
             (paths (fileSystemStateManager w)) of
        Some otherPath \<Rightarrow>
          if otherPath \<noteq> [] then emitEvent now (lockEvent_rename t) otherPath (Some targetPath) w
          else emitEvent now (lockEvent_add t) targetPath None w
      | None \<Rightarrow> emitEvent now (lockEvent_add t) targetPath None w)"

text \<open>The closures \<^verbatim>\<open>cleanup\<close> and \<^verbatim>\<open>free\<close> of \<^verbatim>\<open>addLock\<close>.\<close>

definition addLock_cleanup :: "closure_env \<Rightarrow> FileRenameHandler \<Rightarrow> FileRenameHandler" where
  "addLock_cleanup c w =
     LockResolver_remove (AddFree c)
       (with_fileSystemLocker (c_inodeType c) (locker_removeLock (c_inodeNumber c)) w)"

definition addLock_free :: "closure_env \<Rightarrow> int \<Rightarrow> FileRenameHandler \<Rightarrow> FileRenameHandler" where
  "addLock_free c now w =
     emit (Some (c_inodeNumber c)) (c_targetPath c) (c_inodeType c) now (addLock_cleanup c w)"

text \<open>The closures \<^verbatim>\<open>cleanup\<close>, \<^verbatim>\<open>free\<close> and \<^verbatim>\<open>overridden\<close> of \<^verbatim>\<open>unlinkLock\<close>.\<close>

definition unlinkLock_cleanup :: "closure_env \<Rightarrow> FileRenameHandler \<Rightarrow> FileRenameHandler" where
  "unlinkLock_cleanup c w =
     LockResolver_remove (UnlinkFree c)
       (with_fileSystemLocker (c_inodeType c) (locker_removeUnlink (c_inodeNumber c)) w)"

definition unlinkLock_free :: "closure_env \<Rightarrow> int \<Rightarrow> FileRenameHandler \<Rightarrow> FileRenameHandler" where
  "unlinkLock_free c now w =
     emitEvent now (lockEvent_unlink (c_inodeType c)) (c_targetPath c) None (unlinkLock_cleanup c w)"

definition overridden :: "closure_env \<Rightarrow> FileRenameHandler \<Rightarrow> Path \<times> FileRenameHandler" where
  "overridden c w = (c_targetPath c, unlinkLock_cleanup c w)"

text \<open>The closure \<^verbatim>\<open>resolve\<close> of \<^verbatim>\<open>addLock\<close>.\<close>

definition resolve :: "closure_env \<Rightarrow> int \<Rightarrow> FileRenameHandler \<Rightarrow> FileRenameHandler" where
  "resolve c now w =
     (case locker_getUnlink (c_inodeNumber c) (fileSystemLocker (c_inodeType c) w) of
        None \<Rightarrow> w
      | Some unlink \<Rightarrow>
          (let w1 = addLock_cleanup c w;
               (previousTargetPath, w2) = overridden unlink w1
           in if c_targetPath c = previousTargetPath
              then (case lockEvent_change (c_inodeType c) of
                      Some change \<Rightarrow>
                        if stats (fileSystemStateManager w2) (c_targetPath c) \<noteq> None
                        then emitEvent now change (c_targetPath c) None w2
                        else w2
                    | None \<Rightarrow> w2)
              else emitEvent now (lockEvent_rename (c_inodeType c)) previousTargetPath
                     (Some (c_targetPath c)) w2))"

text \<open>
  \<^verbatim>\<open>LockResolver.resolve\<close>, the callback of the interval timer. The loop over the map
  removes an entry before it calls its function, and the function removes no other
  entry and adds none, so the loop visits the entries the map had at its start.
\<close>

fun call_resolver :: "Resolver \<Rightarrow> int \<Rightarrow> FileRenameHandler \<Rightarrow> FileRenameHandler" where
  "call_resolver (AddFree c) now w = addLock_free c now w"
| "call_resolver (UnlinkFree c) now w = unlinkLock_free c now w"

fun resolve_loop :: "int \<Rightarrow> (Resolver \<times> int) list \<Rightarrow> FileRenameHandler \<Rightarrow> FileRenameHandler" where
  "resolve_loop now [] w = w"
| "resolve_loop now ((fn, timestamp) # rest) w =
     (if timestamp > now then resolve_loop now rest w
      else resolve_loop now rest (call_resolver fn now (LockResolver_remove fn w)))"

definition LockResolver_resolve :: "int \<Rightarrow> FileRenameHandler \<Rightarrow> FileRenameHandler" where
  "LockResolver_resolve now w =
     (let w1 = resolve_loop now (resolvers w) w
      in if length (resolvers w1) = 0 then LockResolver_reset w1 else w1)"

text \<open>\<^verbatim>\<open>!inodeNumber\<close> holds for \<^verbatim>\<open>undefined\<close> and for the number 0.\<close>

definition falsy :: "InodeNumber option \<Rightarrow> bool" where
  "falsy inodeNumber' \<longleftrightarrow> inodeNumber' = None \<or> inodeNumber' = Some 0"

text \<open>
  \<^verbatim>\<open>addLock\<close> and \<^verbatim>\<open>unlinkLock\<close>. The optional \<open>timeout'\<close> defaults to
  \<open>renameTimeout\<close>; \<open>now\<close> is the value of \<^verbatim>\<open>Date.now()\<close> in this turn.
\<close>

definition addLock ::
  "InodeNumber option \<Rightarrow> Path \<Rightarrow> InodeType \<Rightarrow> int option \<Rightarrow> int \<Rightarrow> FileRenameHandler \<Rightarrow> FileRenameHandler" where
  "addLock inodeNumber' targetPath t timeout' now w =
     (if falsy inodeNumber' then emit inodeNumber' targetPath t now w
      else
        (let c = \<lparr> cid = nextClosure w, c_inodeNumber = the inodeNumber',
                   c_targetPath = targetPath, c_inodeType = t \<rparr>;
             w0 = w\<lparr> nextClosure := Suc (nextClosure w) \<rparr>;
             w1 = LockResolver_add (AddFree c)
                    (case timeout' of None \<Rightarrow> renameTimeout | Some ms \<Rightarrow> ms) now w0;
             w2 = with_fileSystemLocker t (locker_addLock (the inodeNumber') c) w1
         in resolve c now w2))"

definition unlinkLock ::
  "InodeNumber option \<Rightarrow> Path \<Rightarrow> InodeType \<Rightarrow> int option \<Rightarrow> int \<Rightarrow> FileRenameHandler \<Rightarrow> FileRenameHandler" where
  "unlinkLock inodeNumber' targetPath t timeout' now w =
     (if falsy inodeNumber' then emitEvent now (lockEvent_unlink t) targetPath None w
      else
        (let c = \<lparr> cid = nextClosure w, c_inodeNumber = the inodeNumber',
                   c_targetPath = targetPath, c_inodeType = t \<rparr>;
             w0 = w\<lparr> nextClosure := Suc (nextClosure w) \<rparr>;
             w1 = LockResolver_add (UnlinkFree c)
                    (case timeout' of None \<Rightarrow> renameTimeout | Some ms \<Rightarrow> ms) now w0;
             w2 = with_fileSystemLocker t (locker_addUnlink (the inodeNumber') c) w1
         in case locker_getLock (the inodeNumber') (fileSystemLocker t w2) of
              None \<Rightarrow> w2
            | Some lock \<Rightarrow> resolve lock now w2))"

datatype lock_operation = LockAdd | LockUnlink

definition processLock ::
  "Path \<Rightarrow> FileSystemEvent \<Rightarrow> InodeType \<Rightarrow> lock_operation \<Rightarrow> int option \<Rightarrow> int \<Rightarrow>
   FileRenameHandler \<Rightarrow> FileRenameHandler" where
  "processLock targetPath event t operation timeout' now w =
     (let inodeNumber' = getInodeNumber (fileSystemStateManager w) targetPath event (Some t)
      in if operation = LockAdd then addLock inodeNumber' targetPath t timeout' now w
         else unlinkLock inodeNumber' targetPath t timeout' now w)"

definition getLockTargetEvent ::
  "FileSystemEvent \<Rightarrow> Path \<Rightarrow> int option \<Rightarrow> int \<Rightarrow> FileRenameHandler \<Rightarrow> FileRenameHandler" where
  "getLockTargetEvent event targetPath timeout' now w =
     (case event of
        ADD \<Rightarrow> processLock targetPath event FILE LockAdd timeout' now w
      | ADD_DIR \<Rightarrow> processLock targetPath event DIR LockAdd timeout' now w
      | UNLINK \<Rightarrow> processLock targetPath event FILE LockUnlink timeout' now w
      | UNLINK_DIR \<Rightarrow> processLock targetPath event DIR LockUnlink timeout' now w
      | _ \<Rightarrow> w)"

definition handler_reset :: "FileRenameHandler \<Rightarrow> FileRenameHandler" where
  "handler_reset w =
     w\<lparr> fileSystemStateManager := fsm_reset (fileSystemStateManager w),
        directoryLocks := locker_reset (directoryLocks w),
        fileLocks := locker_reset (fileLocks w) \<rparr>"

text \<open>A call of \<^verbatim>\<open>fileStateManager.update\<close> on the handler's state manager.\<close>

definition handler_update :: "Path \<Rightarrow> Stats option \<Rightarrow> FileRenameHandler \<Rightarrow> FileRenameHandler" where
  "handler_update targetPath raw w =
     w\<lparr> fileSystemStateManager := snd (update targetPath raw (fileSystemStateManager w)) \<rparr>"

text \<open>
  The interval timer calls \<^verbatim>\<open>LockResolver.resolve\<close> while it is set; \<open>run_ticks\<close> takes
  the clock readings of successive firings.
\<close>

definition tick :: "int \<Rightarrow> FileRenameHandler \<Rightarrow> FileRenameHandler" where
  "tick now w = (if lr_intervalId w then LockResolver_resolve now w else w)"

fun run_ticks :: "int list \<Rightarrow> FileRenameHandler \<Rightarrow> FileRenameHandler" where
  "run_ticks [] w = w"
| "run_ticks (now # ticks) w = run_ticks ticks (tick now w)"

text \<open>
  The operations on a handler: a call of \<^verbatim>\<open>update\<close> on its state manager whose stat
  result has arrived, an event given to \<^verbatim>\<open>getLockTargetEvent\<close>, a firing of the interval
  timer, and \<^verbatim>\<open>reset\<close>.
\<close>

datatype handler_op =
  Observe Path "Stats option" | Event FileSystemEvent Path "int option" int | TimerTick int | HandlerReset

fun handler_step :: "handler_op \<Rightarrow> FileRenameHandler \<Rightarrow> FileRenameHandler" where
  "handler_step (Observe targetPath raw) w = handler_update targetPath raw w"
| "handler_step (Event event targetPath timeout' now) w = getLockTargetEvent event targetPath timeout' now w"
| "handler_step (TimerTick now) w = tick now w"
| "handler_step HandlerReset w = handler_reset w"

fun handler_run :: "handler_op list \<Rightarrow> FileRenameHandler \<Rightarrow> FileRenameHandler" where
  "handler_run [] w = w"
| "handler_run (op # ops) w = handler_run ops (handler_step op w)"

section \<open>Definitions of the specification and example inputs\<close>

subsection \<open>The classification table\<close>

text \<open>
  The nine rows of the table, over the four booleans had-previous, has-next,
  previous-was-file and next-is-file. Metadata that is present and not a file is a
  directory.
\<close>

fun classification_table :: "bool \<Rightarrow> bool \<Rightarrow> bool \<Rightarrow> bool \<Rightarrow> FileSystemEvent list" where
  "classification_table False False _ _ = []"
| "classification_table False True _ False = [ADD_DIR]"
| "classification_table False True _ True = [ADD]"
| "classification_table True False False _ = [UNLINK_DIR]"
| "classification_table True False True _ = [UNLINK]"
| "classification_table True True True True = [CHANGE]"
| "classification_table True True True False = [UNLINK, ADD_DIR]"
| "classification_table True True False True = [UNLINK_DIR, ADD]"
| "classification_table True True False False = [UNLINK_DIR, ADD_DIR]"

text \<open>
  The freshly fetched metadata is present when the stat result is a regular file or a
  directory, and it is that of a file when the stat result is a regular file.
\<close>

definition supported_entry :: "Stats option \<Rightarrow> bool" where
  "supported_entry raw = (case raw of None \<Rightarrow> False | Some st \<Rightarrow> stat_isFile st \<or> stat_isDirectory st)"

definition regular_file :: "Stats option \<Rightarrow> bool" where
  "regular_file raw = (case raw of None \<Rightarrow> False | Some st \<Rightarrow> stat_isFile st)"

text \<open>Only files and directories are cached.\<close>

definition files_and_directories :: "FileSystemStateManager \<Rightarrow> bool" where
  "files_and_directories m \<longleftrightarrow> (\<forall>p s. stats m p = Some s \<longrightarrow> isFile s \<or> isDirectory s)"

subsection \<open>Cache and inode index in sync\<close>

text \<open>
  A path is in the set of an inode exactly when the cache maps the path to metadata
  with that inode number.
\<close>

definition in_sync :: "FileSystemStateManager \<Rightarrow> bool" where
  "in_sync m \<longleftrightarrow>
     (\<forall>p i. (p \<in> set (case paths m i of None \<Rightarrow> [] | Some ps \<Rightarrow> ps)) =
            (map_option inodeNumber (stats m p) = Some i))"

text \<open>One half of it: every cached path is in the set of its cached inode.\<close>

definition cached_in_index :: "FileSystemStateManager \<Rightarrow> bool" where
  "cached_in_index m \<longleftrightarrow>
     (\<forall>p s. stats m p = Some s \<longrightarrow>
        p \<in> set (case paths m (inodeNumber s) of None \<Rightarrow> [] | Some ps \<Rightarrow> ps))"

subsection \<open>Sequences of operations on a SetMultiMap\<close>

datatype ('k, 'v) smm_op = Set 'k "'v set_arg" | DeleteValue 'k "'v option"

fun smm_apply :: "('k, 'v) smm_op \<Rightarrow> ('k, 'v) SetMultiMap \<Rightarrow> ('k, 'v) SetMultiMap" where
  "smm_apply (Set key val) m = smm_set key val m"
| "smm_apply (DeleteValue key val) m = snd (smm_deleteValue key val m)"

fun smm_run :: "('k, 'v) smm_op list \<Rightarrow> ('k, 'v) SetMultiMap \<Rightarrow> ('k, 'v) SetMultiMap" where
  "smm_run [] m = m"
| "smm_run (op # ops) m = smm_run ops (smm_apply op m)"

text \<open>The operations that pass a single value, not a whole \<^verbatim>\<open>Set\<close>, to \<^verbatim>\<open>set\<close>.\<close>

fun single_valued :: "('k, 'v) smm_op \<Rightarrow> bool" where
  "single_valued (Set key (Single v)) = True"
| "single_valued (Set key (Whole vs)) = False"
| "single_valued (DeleteValue key val) = True"

text \<open>Every key of the map has a non-empty value set.\<close>

definition nonempty_sets :: "('k, 'v) SetMultiMap \<Rightarrow> bool" where
  "nonempty_sets m \<longleftrightarrow> (\<forall>key vs. m key = Some vs \<longrightarrow> vs \<noteq> [])"

subsection \<open>Invariants of the retry queue\<close>

text \<open>
  The active set is within the hard limit, and has been after every addition to it.
\<close>

definition bounded :: "RetryQueue \<Rightarrow> bool" where
  "bounded q \<longleftrightarrow> length (activeQueue q) \<le> fileDescriptorLimit \<and> maxActive q \<le> fileDescriptorLimit"

text \<open>
  The resolvers of the two queues are distinct, no resolver is in both, and every
  resolver that exists was created by an earlier \<^verbatim>\<open>schedule\<close>.
\<close>

definition rq_wf :: "RetryQueue \<Rightarrow> bool" where
  "rq_wf q \<longleftrightarrow> distinct (activeQueue q) \<and> distinct (pendingQueue q) \<and>
     set (activeQueue q) \<inter> set (pendingQueue q) = {} \<and>
     (\<forall>fn \<in> set (activeQueue q) \<union> set (pendingQueue q) \<union> set (called q). fn < nextResolver q)"

definition peak_ok :: "RetryQueue \<Rightarrow> bool" where
  "peak_ok q \<longleftrightarrow> length (activeQueue q) \<le> maxActive q"

subsection \<open>Retryable errors\<close>


subsection \<open>Removal timers and removed events\<close>

text \<open>
  The pending timers of removal locks for a path in a lock namespace, and the emitted
  removal events for it.
\<close>

fun is_removal_timer :: "Path \<Rightarrow> InodeType \<Rightarrow> Resolver \<times> int \<Rightarrow> bool" where
  "is_removal_timer A t (UnlinkFree c, deadline) = (c_targetPath c = A \<and> c_inodeType c = t)"
| "is_removal_timer A t (AddFree c, deadline) = False"

definition removal_timers :: "Path \<Rightarrow> InodeType \<Rightarrow> FileRenameHandler \<Rightarrow> (Resolver \<times> int) list" where
  "removal_timers A t w = filter (is_removal_timer A t) (resolvers w)"

definition removed_events :: "Path \<Rightarrow> InodeType \<Rightarrow> FileRenameHandler \<Rightarrow> Emitted list" where
  "removed_events A t w = filter (\<lambda>(time, event, targetPath, next). event = lockEvent_unlink t \<and> targetPath = A) (emitted w)"

text \<open>
  The pending timers of creation locks for a path in a lock namespace, and the emitted
  creation events for it.
\<close>

fun is_creation_timer :: "Path \<Rightarrow> InodeType \<Rightarrow> Resolver \<times> int \<Rightarrow> bool" where
  "is_creation_timer A t (AddFree c, deadline) = (c_targetPath c = A \<and> c_inodeType c = t)"
| "is_creation_timer A t (UnlinkFree c, deadline) = False"

definition creation_timers :: "Path \<Rightarrow> InodeType \<Rightarrow> FileRenameHandler \<Rightarrow> (Resolver \<times> int) list" where
  "creation_timers A t w = filter (is_creation_timer A t) (resolvers w)"

definition created_events :: "Path \<Rightarrow> InodeType \<Rightarrow> FileRenameHandler \<Rightarrow> Emitted list" where
  "created_events A t w = filter (\<lambda>(time, event, targetPath, next). event = lockEvent_add t \<and> targetPath = A) (emitted w)"

text \<open>An entry of the resolver map whose deadline has passed at \<open>now\<close>.\<close>

definition due :: "int \<Rightarrow> Resolver \<times> int \<Rightarrow> bool" where
  "due now r \<longleftrightarrow> snd r \<le> now"


subsection \<open>Idle inodes and states that differ in one inode\<close>

text \<open>The variables captured by a registered resolver.\<close>

fun resolver_env :: "Resolver \<Rightarrow> closure_env" where
  "resolver_env (AddFree c) = c"
| "resolver_env (UnlinkFree c) = c"

text \<open>An entry of the resolver map that belongs to a lock of inode \<open>I\<close> in namespace \<open>t\<close>.\<close>

definition for_lock :: "InodeNumber \<Rightarrow> InodeType \<Rightarrow> Resolver \<times> int \<Rightarrow> bool" where
  "for_lock I t r \<longleftrightarrow>
     c_inodeNumber (resolver_env (fst r)) = I \<and> c_inodeType (resolver_env (fst r)) = t"

definition pending_for :: "InodeNumber \<Rightarrow> InodeType \<Rightarrow> FileRenameHandler \<Rightarrow> (Resolver \<times> int) list" where
  "pending_for I t w = filter (for_lock I t) (resolvers w)"

text \<open>
  The state machine of an inode in a lock namespace is idle: no creation and no removal
  is parked for the inode and none of its timers is pending.
\<close>

definition idle :: "InodeNumber \<Rightarrow> InodeType \<Rightarrow> FileRenameHandler \<Rightarrow> bool" where
  "idle I t w \<longleftrightarrow>
     add_locks (fileSystemLocker t w) I = None \<and> unlink_locks (fileSystemLocker t w) I = None \<and>
     pending_for I t w = []"

text \<open>The interval timer is set whenever a resolver is registered.\<close>

definition timer_wf :: "FileRenameHandler \<Rightarrow> bool" where
  "timer_wf w \<longleftrightarrow> (resolvers w \<noteq> [] \<longrightarrow> lr_intervalId w)"

text \<open>Every parked lock was created for the inode and the namespace it is parked under.\<close>

definition locks_wf :: "FileRenameHandler \<Rightarrow> bool" where
  "locks_wf w \<longleftrightarrow>
     (\<forall>t i c. add_locks (fileSystemLocker t w) i = Some c \<or> unlink_locks (fileSystemLocker t w) i = Some c \<longrightarrow>
        c_inodeNumber c = i \<and> c_inodeType c = t)"

text \<open>
  Two states agree on the state manager, on the emitted events and on all locks and
  timers other than those of inode \<open>I\<close> in namespace \<open>t\<close>.
\<close>

definition same_but_for :: "InodeNumber \<Rightarrow> InodeType \<Rightarrow> FileRenameHandler \<Rightarrow> FileRenameHandler \<Rightarrow> bool" where
  "same_but_for I t w w' \<longleftrightarrow>
     fileSystemStateManager w = fileSystemStateManager w' \<and> emitted w = emitted w' \<and>
     (\<forall>t' i. t' \<noteq> t \<or> i \<noteq> I \<longrightarrow>
        add_locks (fileSystemLocker t' w) i = add_locks (fileSystemLocker t' w') i \<and>
        unlink_locks (fileSystemLocker t' w) i = unlink_locks (fileSystemLocker t' w') i) \<and>
     filter (\<lambda>r. \<not> for_lock I t r) (resolvers w) = filter (\<lambda>r. \<not> for_lock I t r) (resolvers w')"

text \<open>No timer of the inode has reached its deadline at \<open>now\<close>.\<close>

definition undue :: "InodeNumber \<Rightarrow> InodeType \<Rightarrow> int \<Rightarrow> FileRenameHandler \<Rightarrow> bool" where
  "undue I t now w \<longleftrightarrow> (\<forall>r \<in> set (pending_for I t w). \<not> due now r)"

subsection \<open>Example inputs\<close>

text \<open>A regular file with inode 1, and the file that replaces it, with inode 2.\<close>

definition example_file :: Stats where
  "example_file = \<lparr> ino = 1, stat_size = 10, stat_isFile = True, stat_isDirectory = False, stat_isSymbolicLink = False \<rparr>"

definition example_replaced_file :: Stats where
  "example_replaced_file = \<lparr> ino = 2, stat_size = 10, stat_isFile = True, stat_isDirectory = False, stat_isSymbolicLink = False \<rparr>"

text \<open>The state after the path \<^verbatim>\<open>/a\<close> was observed as the first and then as the second file.\<close>

definition example_replaced_state :: FileSystemStateManager where
  "example_replaced_state =
     snd (update ''/a'' (Some example_replaced_file)
       (snd (update ''/a'' (Some example_file) new_FileSystemStateManager)))"

text \<open>
  1024 calls of \<^verbatim>\<open>schedule\<close> that are admitted at once, 1025 calls that are queued
  behind them, and the release of the first caller, all before the next polling tick.
\<close>

definition example_burst :: "rq_op list" where
  "example_burst = replicate 1024 Schedule @ replicate 1025 Schedule @ [Release 0]"


text \<open>An entry that is neither a regular file nor a directory, such as a socket.\<close>

definition example_socket :: Stats where
  "example_socket = \<lparr> ino = 9, stat_size = 0, stat_isFile = False, stat_isDirectory = False, stat_isSymbolicLink = False \<rparr>"

text \<open>A regular file with inode 0 and a directory with inode 7.\<close>

definition example_zero_file :: Stats where
  "example_zero_file = \<lparr> ino = 0, stat_size = 10, stat_isFile = True, stat_isDirectory = False, stat_isSymbolicLink = False \<rparr>"

definition example_dir :: Stats where
  "example_dir = \<lparr> ino = 7, stat_size = 0, stat_isFile = False, stat_isDirectory = True, stat_isSymbolicLink = False \<rparr>"

text \<open>The state after the path \<^verbatim>\<open>/d\<close> was observed as the directory.\<close>

definition example_dir_state :: FileSystemStateManager where
  "example_dir_state = fsm_run [Update ''/d'' (Some example_dir)] new_FileSystemStateManager"

text \<open>
  The directory \<^verbatim>\<open>/d\<close> observed twice (the second observation yields the events
  \<open>[UNLINK_DIR, ADD_DIR]\<close>), and its removal event given to the correlator.
\<close>

definition example_dir_parked :: FileRenameHandler where
  "example_dir_parked =
     getLockTargetEvent UNLINK_DIR ''/d'' None 0
       (handler_update ''/d'' (Some example_dir)
         (handler_update ''/d'' (Some example_dir) new_FileRenameHandler))"

text \<open>
  The file \<^verbatim>\<open>/a\<close> observed, found missing and observed again with the same inode, and
  its removal event given to the correlator.
\<close>

definition example_file_parked :: FileRenameHandler where
  "example_file_parked =
     getLockTargetEvent UNLINK ''/a'' None 0
       (handler_update ''/a'' (Some example_file)
         (handler_update ''/a'' None
           (handler_update ''/a'' (Some example_file) new_FileRenameHandler)))"

text \<open>Two files with inode 0, \<^verbatim>\<open>/x\<close> and then \<^verbatim>\<open>/b\<close>, observed for the first time.\<close>

definition example_zero_state :: FileRenameHandler where
  "example_zero_state =
     handler_update ''/b'' (Some example_zero_file)
       (handler_update ''/x'' (Some example_zero_file) new_FileRenameHandler)"


text \<open>
  The file \<^verbatim>\<open>/a\<close> observed and then found missing, and the file \<^verbatim>\<open>/b\<close> observed with
  the same inode.
\<close>

definition example_renamed_state :: FileRenameHandler where
  "example_renamed_state =
     handler_update ''/b'' (Some example_file)
       (handler_update ''/a'' None (handler_update ''/a'' (Some example_file) new_FileRenameHandler))"

text \<open>
  A file that is created as \<^verbatim>\<open>/a\<close> and renamed to \<^verbatim>\<open>/b\<close> 150 ms later: \<^verbatim>\<open>/a\<close> is
  observed and its creation event given to the correlator at time 0; then \<^verbatim>\<open>/a\<close> is
  found missing; then its removal event is given to the correlator at time 150 and
  \<^verbatim>\<open>/b\<close> is observed with the same inode.
\<close>

definition example_created :: FileRenameHandler where
  "example_created =
     getLockTargetEvent ADD ''/a'' None 0
       (handler_update ''/a'' (Some example_file) new_FileRenameHandler)"

definition example_created_removed :: FileRenameHandler where
  "example_created_removed = handler_update ''/a'' None example_created"

definition example_created_renamed :: FileRenameHandler where
  "example_created_renamed =
     handler_update ''/b'' (Some example_file)
       (getLockTargetEvent UNLINK ''/a'' None 150 example_created_removed)"

section \<open>Properties of the state manager\<close>

lemma determineEvents_types:
  "map fst (determineEvents P N) =
     classification_table (P \<noteq> None) (N \<noteq> None)
       (case P of None \<Rightarrow> False | Some p \<Rightarrow> isFile p)
       (case N of None \<Rightarrow> False | Some n \<Rightarrow> isFile n)"
  by (cases P; cases N) (simp_all add: determineEvents_def Let_def)

lemma stats_updateInodes [simp]: "stats (updateInodes p evs m) = stats m"
  by (induction evs arbitrary: m) (auto simp: updateInode_def Let_def)

lemma paths_updateInodes [simp]: "paths (updateInodes p evs m) = paths m"
  by (induction evs arbitrary: m) (auto simp: updateInode_def Let_def)

lemma stats_update: "stats (snd (update p raw m)) = (stats m)(p := fsm_getStats raw)"
  by (auto simp: update_def Let_def updateStats_def split: option.splits)

text \<open>The fetched metadata in terms of the stat result.\<close>

lemma fsm_getStats_present: "(fsm_getStats raw \<noteq> None) = supported_entry raw"
  by (simp add: fsm_getStats_def supported_entry_def split: option.splits)

lemma fsm_getStats_isFile:
  "(case fsm_getStats raw of None \<Rightarrow> False | Some n \<Rightarrow> isFile n) = regular_file raw"
  by (simp add: fsm_getStats_def regular_file_def new_WatchrStats_def split: option.splits)

lemma fsm_getStats_kind:
  "fsm_getStats raw = Some n \<Longrightarrow>
   supported_entry raw \<and> isFile n = regular_file raw \<and> (isFile n \<or> isDirectory n)"
  by (auto simp: fsm_getStats_def supported_entry_def regular_file_def new_WatchrStats_def
      split: option.splits if_splits)

lemma update_resume_events:
  "fst (update_resume call raw m) =
     classification_table (stats m (su_targetPath call) \<noteq> None) (supported_entry raw)
       (case stats m (su_targetPath call) of None \<Rightarrow> False | Some p \<Rightarrow> isFile p) (regular_file raw)"
proof -
  have "fst (update_resume call raw m) =
          map fst (determineEvents (stats m (su_targetPath call)) (fsm_getStats raw))"
    by (simp add: update_resume_def update_def Let_def)
  then show ?thesis
    unfolding determineEvents_types fsm_getStats_present fsm_getStats_isFile .
qed

lemma update_resume_cached:
  "(case stats (snd (update_resume call raw m)) (su_targetPath call) of
      None \<Rightarrow> \<not> supported_entry raw
    | Some n \<Rightarrow> supported_entry raw \<and> isFile n = regular_file raw \<and> (\<not> isFile n \<longrightarrow> isDirectory n))"
proof (cases "fsm_getStats raw")
  case None
  then show ?thesis
    using fsm_getStats_present [of raw] by (simp add: update_resume_def stats_update)
next
  case (Some n)
  then show ?thesis
    using fsm_getStats_kind [OF Some] by (auto simp: update_resume_def stats_update)
qed

text \<open>Every state that is reached caches files and directories only.\<close>

lemma files_and_directories_update:
  "files_and_directories m \<Longrightarrow> files_and_directories (snd (update targetPath raw m))"
  using fsm_getStats_kind [of raw]
  by (auto simp: files_and_directories_def stats_update)

lemma files_and_directories_step:
  "files_and_directories m \<Longrightarrow> files_and_directories (fsm_step op m)"
  by (cases op) (simp_all add: update_resume_def files_and_directories_update,
      simp add: files_and_directories_def fsm_reset_def)

lemma files_and_directories_run:
  "files_and_directories m \<Longrightarrow> files_and_directories (fsm_run ops m)"
  by (induction ops arbitrary: m) (simp_all add: files_and_directories_step)

lemma files_and_directories_new: "files_and_directories new_FileSystemStateManager"
  by (simp add: files_and_directories_def new_FileSystemStateManager_def)

text \<open>
  C1, as amended. A call of \<open>update\<close> returns, when its stat result \<open>raw\<close> arrives,
  exactly the events of the nine-row classification table over: whether metadata \<open>P\<close> is
  cached for the path at that moment, whether the fetched metadata \<open>N\<close> is present,
  which it is exactly when the stat result is a regular file or a directory, whether
  \<open>P\<close> is a file and whether \<open>N\<close> is a file. \<open>P\<close> is the metadata that was cached
  before the call whenever the cache entry of the path is the same at both moments (the
  call was made in the state \<open>m0\<close>). The fetched metadata is what the call caches: none
  for an unsupported entry, otherwise metadata of a file or of a directory as the stat
  result says; and in every state that is reached, cached metadata that is not of a file
  is of a directory.
\<close>

theorem update_classification_table:
  "fst (update_resume call raw m) =
     classification_table (stats m (su_targetPath call) \<noteq> None) (supported_entry raw)
       (case stats m (su_targetPath call) of None \<Rightarrow> False | Some p \<Rightarrow> isFile p) (regular_file raw) \<and>
   (call = update_call targetPath m0 \<and> stats m targetPath = stats m0 targetPath \<longrightarrow>
      fst (update_resume call raw m) =
        classification_table (su_cached call \<noteq> None) (supported_entry raw)
          (case su_cached call of None \<Rightarrow> False | Some p \<Rightarrow> isFile p) (regular_file raw)) \<and>
   (case stats (snd (update_resume call raw m)) (su_targetPath call) of
      None \<Rightarrow> \<not> supported_entry raw
    | Some n \<Rightarrow> supported_entry raw \<and> isFile n = regular_file raw \<and> (\<not> isFile n \<longrightarrow> isDirectory n)) \<and>
   (m = fsm_run ops new_FileSystemStateManager \<and> stats m p = Some s \<and> \<not> isFile s \<longrightarrow> isDirectory s)"
proof -
  note events = update_resume_events [of call raw m]
  have before: "fst (update_resume call raw m) =
        classification_table (su_cached call \<noteq> None) (supported_entry raw)
          (case su_cached call of None \<Rightarrow> False | Some p \<Rightarrow> isFile p) (regular_file raw)"
    if "call = update_call targetPath m0" and "stats m targetPath = stats m0 targetPath"
    unfolding events using that by (simp add: update_call_def)
  have kind: "isDirectory s"
    if "m = fsm_run ops new_FileSystemStateManager" and "stats m p = Some s" and "\<not> isFile s"
  proof -
    have "files_and_directories m"
      unfolding that(1) by (rule files_and_directories_run [OF files_and_directories_new])
    with that(2,3) show ?thesis by (auto simp: files_and_directories_def)
  qed
  from events before update_resume_cached [where call = call and raw = raw and m = m] kind
  show ?thesis by blast
qed

lemma example_dir_state_cached: "stats example_dir_state ''/d'' = Some (new_WatchrStats example_dir)"
  by (simp add: example_dir_state_def update_resume_def update_call_def stats_update
      fsm_getStats_def example_dir_def)

theorem update_classification_table_witness:
  "fst (update_resume (update_call ''/d'' example_dir_state) (Some example_file) example_dir_state)
     = [UNLINK_DIR, ADD] \<and>
   fst (update_resume (update_call ''/d'' example_dir_state) (Some example_socket) example_dir_state)
     = [UNLINK_DIR] \<and>
   stats (snd (update_resume (update_call ''/d'' example_dir_state) (Some example_socket) example_dir_state)) ''/d''
     = None \<and>
   fst (update_resume (update_call ''/d'' new_FileSystemStateManager) (Some example_dir) new_FileSystemStateManager)
     = [ADD_DIR] \<and>
   isDirectory (new_WatchrStats example_dir)"
  using update_classification_table [of "update_call ''/d'' example_dir_state" "Some example_file"
      example_dir_state "''/d''" example_dir_state "[Update ''/d'' (Some example_dir)]" "''/d''"
      "new_WatchrStats example_dir"]
    update_classification_table [of "update_call ''/d'' example_dir_state" "Some example_socket"
      example_dir_state "''/d''" example_dir_state "[Update ''/d'' (Some example_dir)]" "''/d''"
      "new_WatchrStats example_dir"]
    update_classification_table [of "update_call ''/d'' new_FileSystemStateManager" "Some example_dir"
      new_FileSystemStateManager "''/d''" new_FileSystemStateManager "[]" "''/d''"
      "new_WatchrStats example_dir"]
    example_dir_state_cached
  by (simp add: update_call_def supported_entry_def regular_file_def example_file_def
      example_socket_def example_dir_def new_WatchrStats_def example_dir_state_def [symmetric]
      new_FileSystemStateManager_def
      split: option.splits)

text \<open>
  C1 as stated fails when two calls for one path overlap: \<open>update\<close> reads the cache
  after it has awaited the stat. Both calls are made while nothing is cached for
  \<^verbatim>\<open>/a\<close> and both observe the same regular file. The call that is resumed second finds
  what the first has cached and returns \<open>[CHANGE]\<close>, where the table over the metadata
  cached before the call gives \<open>[ADD]\<close>.
\<close>

theorem update_interleaved_counterexample:
  "(let first = update_call ''/a'' new_FileSystemStateManager;
        second = update_call ''/a'' new_FileSystemStateManager;
        m1 = snd (update_resume first (Some example_file) new_FileSystemStateManager)
    in fst (update_resume second (Some example_file) m1) = [CHANGE] \<and>
       classification_table (su_cached second \<noteq> None) (supported_entry (Some example_file))
         (case su_cached second of None \<Rightarrow> False | Some p \<Rightarrow> isFile p)
         (regular_file (Some example_file)) = [ADD])"
  by (simp add: Let_def update_resume_events)
    (simp add: update_call_def update_resume_def stats_update fsm_getStats_def
      supported_entry_def regular_file_def example_file_def new_WatchrStats_def
      new_FileSystemStateManager_def)

lemma paths_update:
  "paths (snd (update p raw m)) = paths (updateStats p (fsm_getStats raw) m)"
  by (simp add: update_def Let_def)

lemma determineEvents_same:
  "map fst (determineEvents P P) =
     (case P of None \<Rightarrow> [] | Some p \<Rightarrow> if isFile p then [CHANGE] else [UNLINK_DIR, ADD_DIR])"
  by (cases P) (simp_all add: determineEvents_def Let_def)

text \<open>
  C4, as amended. Let a first call of \<open>update\<close> for a path have cached what it observed
  and let the second call observe the same metadata, or both observe none. Then the
  second call leaves the path-to-metadata cache unchanged. It returns no event when
  there is no metadata; for an unchanged file it returns \<open>[CHANGE]\<close> and for an unchanged
  directory \<open>[UNLINK_DIR, ADD_DIR]\<close>, since the classifier compares only presence and
  kind of the metadata.
\<close>

theorem update_unchanged:
  assumes "m = snd (update targetPath raw1 m0)"
    and "fsm_getStats raw2 = fsm_getStats raw1"
  shows "stats (snd (update targetPath raw2 m)) = stats m \<and>
         fst (update targetPath raw2 m) =
           (case fsm_getStats raw1 of
              None \<Rightarrow> []
            | Some n \<Rightarrow> if isFile n then [CHANGE] else [UNLINK_DIR, ADD_DIR])"
proof -
  have cached: "stats m targetPath = fsm_getStats raw1"
    using assms(1) by (simp add: stats_update)
  have "stats (snd (update targetPath raw2 m)) = (stats m)(targetPath := fsm_getStats raw2)"
    by (rule stats_update)
  also have "\<dots> = stats m"
    using cached assms(2) by (simp add: fun_upd_idem_iff)
  finally have a: "stats (snd (update targetPath raw2 m)) = stats m" .
  have "fst (update targetPath raw2 m) = map fst (determineEvents (fsm_getStats raw1) (fsm_getStats raw1))"
    using cached assms(2) by (simp add: update_def Let_def)
  then have b: "fst (update targetPath raw2 m) =
           (case fsm_getStats raw1 of
              None \<Rightarrow> []
            | Some n \<Rightarrow> if isFile n then [CHANGE] else [UNLINK_DIR, ADD_DIR])"
    by (simp add: determineEvents_same)
  from a b show ?thesis by simp
qed

theorem update_unchanged_witness:
  "stats (snd (update ''/a'' (Some example_file) (snd (update ''/a'' (Some example_file) new_FileSystemStateManager))))
     = stats (snd (update ''/a'' (Some example_file) new_FileSystemStateManager)) \<and>
   fst (update ''/a'' (Some example_file) (snd (update ''/a'' (Some example_file) new_FileSystemStateManager))) = [CHANGE]"
  using update_unchanged [of "snd (update ''/a'' (Some example_file) new_FileSystemStateManager)"
      "''/a''" "Some example_file" new_FileSystemStateManager "Some example_file"]
  by (simp add: fsm_getStats_def example_file_def new_WatchrStats_def)

text \<open>
  C4 as stated fails: the second of two calls that observe the same regular file finds
  the metadata it cached and still returns an event.
\<close>

theorem update_idempotent_counterexample:
  "fsm_getStats (Some example_file) = stats (snd (update ''/a'' (Some example_file) new_FileSystemStateManager)) ''/a'' \<and>
   fst (update ''/a'' (Some example_file) (snd (update ''/a'' (Some example_file) new_FileSystemStateManager))) \<noteq> []"
  by (simp add: stats_update)
    (simp add: update_def Let_def fsm_getStats_def example_file_def new_WatchrStats_def
      updateStats_def determineEvents_def new_FileSystemStateManager_def)

text \<open>Every update keeps the cached paths in the sets of their cached inodes.\<close>

lemma cached_in_index_updateStats:
  assumes "cached_in_index m"
  shows "cached_in_index (updateStats targetPath st m)"
proof (cases st)
  case (Some s)
  show ?thesis
    unfolding cached_in_index_def
  proof (intro allI impI)
    fix p s'
    assume c: "stats (updateStats targetPath st m) p = Some s'"
    show "p \<in> set (case paths (updateStats targetPath st m) (inodeNumber s') of None \<Rightarrow> [] | Some ps \<Rightarrow> ps)"
    proof (cases "p = targetPath")
      case True
      with c Some show ?thesis by (simp add: updateStats_def smm_set_def set_add_def)
    next
      case False
      with c Some have "stats m p = Some s'" by (simp add: updateStats_def)
      with assms have "p \<in> set (case paths m (inodeNumber s') of None \<Rightarrow> [] | Some ps \<Rightarrow> ps)"
        by (simp add: cached_in_index_def)
      then show ?thesis using Some
        by (auto simp: updateStats_def smm_set_def set_add_def split: option.splits)
    qed
  qed
next
  case None
  show ?thesis
    unfolding cached_in_index_def
  proof (intro allI impI)
    fix p s'
    assume c: "stats (updateStats targetPath st m) p = Some s'"
    then have ne: "p \<noteq> targetPath" and "stats m p = Some s'"
      using None by (auto simp: updateStats_def split: if_splits)
    with assms have "p \<in> set (case paths m (inodeNumber s') of None \<Rightarrow> [] | Some ps \<Rightarrow> ps)"
      by (simp add: cached_in_index_def)
    moreover have "p \<in> set xs \<Longrightarrow> removeAll targetPath xs \<noteq> []" for xs
    proof
      assume a: "p \<in> set xs" and e: "removeAll targetPath xs = []"
      have "p \<in> set (removeAll targetPath xs)" using a ne by simp
      then show False unfolding e by simp
    qed
    ultimately show "p \<in> set (case paths (updateStats targetPath st m) (inodeNumber s') of None \<Rightarrow> [] | Some ps \<Rightarrow> ps)"
      using None ne
      by (auto simp: updateStats_def smm_deleteValue_def set_delete_def Let_def split: option.splits if_splits)
  qed
qed

lemma cached_in_index_update:
  "cached_in_index m \<Longrightarrow> cached_in_index (snd (update targetPath raw m))"
  using cached_in_index_updateStats [of m targetPath "fsm_getStats raw"]
  by (simp add: update_def Let_def cached_in_index_def)

text \<open>
  C5. The inode index does not stay in sync with the cache: when a path that is cached
  with inode 1 is observed again with inode 2, \<open>updateStats\<close> adds the path to the set
  of inode 2 and leaves it in the set of inode 1.
\<close>

theorem inode_index_stale_after_replace:
  "paths example_replaced_state 1 = Some [''/a''] \<and>
   map_option inodeNumber (stats example_replaced_state ''/a'') = Some 2 \<and>
   \<not> in_sync example_replaced_state"
proof -
  have a: "paths example_replaced_state 1 = Some [''/a'']"
    by (simp add: example_replaced_state_def paths_update stats_update updateStats_def
        fsm_getStats_def example_file_def example_replaced_file_def new_WatchrStats_def
        new_FileSystemStateManager_def smm_set_def set_add_def)
  have b: "map_option inodeNumber (stats example_replaced_state ''/a'') = Some 2"
    by (simp add: example_replaced_state_def stats_update
        fsm_getStats_def example_replaced_file_def new_WatchrStats_def)
  have "\<not> in_sync example_replaced_state"
    unfolding in_sync_def
  proof
    assume "\<forall>p i. (p \<in> set (case paths example_replaced_state i of None \<Rightarrow> [] | Some ps \<Rightarrow> ps)) =
            (map_option inodeNumber (stats example_replaced_state p) = Some i)"
    then have "(''/a'' \<in> set (case paths example_replaced_state 1 of None \<Rightarrow> [] | Some ps \<Rightarrow> ps)) =
            (map_option inodeNumber (stats example_replaced_state ''/a'') = Some 1)"
      by blast
    with a b show False by auto
  qed
  with a b show ?thesis by simp
qed

section \<open>Properties of SetMultiMap\<close>

lemma set_add_nonempty: "set_add v vs \<noteq> []"
  by (auto simp: set_add_def)

lemma set_add_member: "v \<in> set (set_add v vs)"
  by (simp add: set_add_def)

lemma nonempty_sets_set_single:
  "nonempty_sets m \<Longrightarrow> nonempty_sets (smm_set key (Single v) m)"
  by (auto simp: nonempty_sets_def smm_set_def set_add_nonempty)

lemma nonempty_sets_deleteValue:
  "nonempty_sets m \<Longrightarrow> nonempty_sets (snd (smm_deleteValue key val m))"
  by (auto simp: nonempty_sets_def smm_deleteValue_def Let_def split: option.splits)

lemma nonempty_sets_apply:
  "single_valued op \<Longrightarrow> nonempty_sets m \<Longrightarrow> nonempty_sets (smm_apply op m)"
  by (cases op rule: single_valued.cases)
     (simp_all add: nonempty_sets_set_single nonempty_sets_deleteValue)

lemma nonempty_sets_run:
  "list_all single_valued ops \<Longrightarrow> nonempty_sets m \<Longrightarrow> nonempty_sets (smm_run ops m)"
  by (induction ops arbitrary: m) (simp_all add: nonempty_sets_apply)

lemma smm_set_single_member:
  "\<exists>vs. smm_set key (Single v) m key = Some vs \<and> v \<in> set vs"
  by (simp add: smm_set_def set_add_member)

lemma removeAll_only: "set vs \<subseteq> {v} \<Longrightarrow> removeAll v vs = []"
  by (induction vs) auto

lemma smm_deleteValue_last:
  "m key = Some vs \<Longrightarrow> set vs \<subseteq> {v} \<Longrightarrow> snd (smm_deleteValue key (Some v) m) key = None"
  by (simp add: smm_deleteValue_def Let_def set_delete_def removeAll_only)

text \<open>
  C9, as amended. Across every sequence of \<open>deleteValue\<close> calls and of \<open>set\<close> calls
  that pass a single value, every key present in the map keeps a non-empty value set;
  \<open>set\<close> with a single value puts the value into the set of the key, and
  \<open>deleteValue\<close> removes the key when it deletes the last value of its set.
\<close>

theorem smm_nonempty_invariant:
  "(list_all single_valued ops \<and> nonempty_sets m0 \<longrightarrow> nonempty_sets (smm_run ops m0)) \<and>
   (\<exists>vs. smm_set key (Single v) m key = Some vs \<and> v \<in> set vs) \<and>
   (m key = Some vs' \<and> set vs' \<subseteq> {v} \<longrightarrow> snd (smm_deleteValue key (Some v) m) key = None)"
  using nonempty_sets_run [of ops m0] smm_set_single_member [of key v m]
    smm_deleteValue_last [of m key vs' v]
  by simp

theorem smm_nonempty_invariant_witness:
  "nonempty_sets (smm_run [Set (1::nat) (Single (2::nat)), Set 1 (Single 3), DeleteValue 1 (Some 2)] Map.empty) \<and>
   snd (smm_deleteValue (1::nat) (Some (2::nat)) [1 \<mapsto> [2]]) 1 = None"
  using smm_nonempty_invariant [of "[Set (1::nat) (Single (2::nat)), Set 1 (Single 3), DeleteValue 1 (Some 2)]"
      Map.empty "1::nat" "2::nat" "[1 \<mapsto> [2]]" "[2]"]
  by (simp add: nonempty_sets_def)

text \<open>
  C9 as stated fails for the overload of \<open>set\<close> that takes a whole \<^verbatim>\<open>Set\<close>: it stores
  the set as it is, and an empty one leaves the key mapped to an empty set.
\<close>

theorem smm_whole_set_counterexample:
  "smm_run [Set (1::nat) (Whole ([]::nat list))] Map.empty 1 = Some []"
  by (simp add: smm_set_def)

section \<open>Properties of the retry queue\<close>

lemma length_set_add: "length (set_add v vs) \<le> Suc (length vs)"
  by (simp add: set_add_def)

lemma length_set_delete: "length (set_delete v vs) \<le> length vs"
  by (simp add: set_delete_def)

lemma bounded_loop:
  "bounded q \<Longrightarrow> bounded (snd (processQueue_loop fns q))"
proof (induction fns arbitrary: q)
  case Nil
  then show ?case by simp
next
  case (Cons fn fns)
  show ?case
  proof (cases "fileDescriptorLimit \<le> length (activeQueue q)")
    case True
    with Cons.prems show ?thesis by simp
  next
    case False
    have "bounded (admit fn q)"
      using Cons.prems False length_set_add [of fn "activeQueue q"]
      by (simp add: bounded_def admit_def Let_def)
    then show ?thesis using False Cons.IH by simp
  qed
qed

lemma bounded_reset: "bounded q \<Longrightarrow> bounded (rq_reset q)"
  by (simp add: bounded_def rq_reset_def)

lemma bounded_processQueue: "bounded q \<Longrightarrow> bounded (processQueue q)"
  using bounded_loop [of q "pendingQueue q"]
  by (auto simp: processQueue_def bounded_reset split: prod.splits bool.splits)

lemma bounded_step: "bounded q \<Longrightarrow> bounded (rq_step op q)"
proof (cases op)
  case Schedule
  assume b: "bounded q"
  have b1: "bounded (q\<lparr>nextResolver := Suc (nextResolver q),
      pendingQueue := set_add (nextResolver q) (pendingQueue q)\<rparr>)"
    using b by (simp add: bounded_def)
  show ?thesis using Schedule b b1 bounded_processQueue [OF b1]
    by (auto simp: schedule_def rq_add_def Let_def bounded_def)
next
  case (Release fn)
  assume "bounded q"
  then show ?thesis using Release length_set_delete [of fn "activeQueue q"]
    by (simp add: release_def bounded_def)
next
  case Tick
  assume "bounded q"
  then show ?thesis using Tick by (simp add: rq_tick_def bounded_processQueue)
qed

lemma bounded_run: "bounded q \<Longrightarrow> bounded (rq_run ops q)"
  by (induction ops arbitrary: q) (simp_all add: bounded_step)

lemma bounded_new: "bounded new_RetryQueue"
  by (simp add: bounded_def new_RetryQueue_def)

lemma peak_loop: "peak_ok q \<Longrightarrow> peak_ok (snd (processQueue_loop fns q))"
  by (induction fns arbitrary: q) (simp_all add: peak_ok_def admit_def Let_def)

lemma peak_processQueue: "peak_ok q \<Longrightarrow> peak_ok (processQueue q)"
  using peak_loop [of q "pendingQueue q"]
  by (auto simp: processQueue_def rq_reset_def peak_ok_def split: prod.splits bool.splits)

lemma peak_step: "peak_ok q \<Longrightarrow> peak_ok (rq_step op q)"
proof (cases op)
  case Schedule
  assume b: "peak_ok q"
  have b1: "peak_ok (q\<lparr>nextResolver := Suc (nextResolver q),
      pendingQueue := set_add (nextResolver q) (pendingQueue q)\<rparr>)"
    using b by (simp add: peak_ok_def)
  show ?thesis using Schedule b b1 peak_processQueue [OF b1]
    by (auto simp: schedule_def rq_add_def Let_def peak_ok_def)
next
  case (Release fn)
  assume "peak_ok q"
  then show ?thesis using Release length_set_delete [of fn "activeQueue q"]
    by (simp add: release_def peak_ok_def)
next
  case Tick
  assume "peak_ok q"
  then show ?thesis using Tick by (simp add: rq_tick_def peak_processQueue)
qed

lemma peak_run: "peak_ok q \<Longrightarrow> peak_ok (rq_run ops q)"
  by (induction ops arbitrary: q) (simp_all add: peak_step)

lemma peak_new: "peak_ok new_RetryQueue"
  by (simp add: peak_ok_def new_RetryQueue_def)

lemma wf_admit:
  "rq_wf q \<Longrightarrow> fn \<in> set (pendingQueue q) \<Longrightarrow> rq_wf (admit fn q)"
  by (auto simp: rq_wf_def admit_def Let_def set_add_def set_delete_def distinct_removeAll)

lemma wf_loop:
  "rq_wf q \<Longrightarrow> distinct fns \<Longrightarrow> set fns \<subseteq> set (pendingQueue q) \<Longrightarrow>
   rq_wf (snd (processQueue_loop fns q))"
proof (induction fns arbitrary: q)
  case Nil
  then show ?case by simp
next
  case (Cons fn fns)
  show ?case
  proof (cases "fileDescriptorLimit \<le> length (activeQueue q)")
    case True
    with Cons.prems show ?thesis by simp
  next
    case False
    have w: "rq_wf (admit fn q)" using Cons.prems by (simp add: wf_admit)
    have s: "set fns \<subseteq> set (pendingQueue (admit fn q))"
      using Cons.prems by (auto simp: admit_def Let_def set_delete_def)
    show ?thesis using False Cons.IH [OF w _ s] Cons.prems(2) by simp
  qed
qed

lemma wf_reset: "rq_wf q \<Longrightarrow> rq_wf (rq_reset q)"
  by (simp add: rq_wf_def rq_reset_def)

lemma wf_processQueue: "rq_wf q \<Longrightarrow> rq_wf (processQueue q)"
proof -
  assume w: "rq_wf q"
  then have "rq_wf (snd (processQueue_loop (pendingQueue q) q))"
    by (intro wf_loop) (simp_all add: rq_wf_def)
  with w show ?thesis
    by (auto simp: processQueue_def wf_reset split: prod.splits bool.splits)
qed

lemma wf_step: "rq_wf q \<Longrightarrow> rq_wf (rq_step op q)"
proof (cases op)
  case Schedule
  assume w: "rq_wf q"
  have w1: "rq_wf (q\<lparr>nextResolver := Suc (nextResolver q),
      pendingQueue := set_add (nextResolver q) (pendingQueue q)\<rparr>)"
  proof -
    have "nextResolver q \<notin> set (activeQueue q)" "nextResolver q \<notin> set (pendingQueue q)"
      using w by (auto simp: rq_wf_def)
    moreover have "\<forall>fn \<in> set (activeQueue q) \<union> set (pendingQueue q) \<union> set (called q). fn < Suc (nextResolver q)"
      using w by (auto simp: rq_wf_def less_Suc_eq)
    ultimately show ?thesis using w by (simp add: rq_wf_def set_add_def)
  qed
  then have w2: "rq_wf (q\<lparr>nextResolver := Suc (nextResolver q),
      pendingQueue := set_add (nextResolver q) (pendingQueue q), intervalId := True\<rparr>)"
    by (simp add: rq_wf_def)
  show ?thesis using Schedule w1 w2 wf_processQueue [OF w1]
    by (simp add: schedule_def rq_add_def Let_def)
next
  case (Release fn)
  assume "rq_wf q"
  then show ?thesis using Release
    by (auto simp: release_def rq_wf_def set_delete_def distinct_removeAll)
next
  case Tick
  assume "rq_wf q"
  then show ?thesis using Tick by (simp add: rq_tick_def wf_processQueue)
qed

lemma wf_run: "rq_wf q \<Longrightarrow> rq_wf (rq_run ops q)"
  by (induction ops arbitrary: q) (simp_all add: wf_step)

lemma wf_new: "rq_wf new_RetryQueue"
  by (simp add: rq_wf_def new_RetryQueue_def)

lemma loop_active:
  "distinct fns \<Longrightarrow> set fns \<inter> set (activeQueue q) = {} \<Longrightarrow>
   activeQueue (snd (processQueue_loop fns q)) =
     activeQueue q @ take (fileDescriptorLimit - length (activeQueue q)) fns \<and>
   called (snd (processQueue_loop fns q)) =
     called q @ take (fileDescriptorLimit - length (activeQueue q)) fns"
proof (induction fns arbitrary: q)
  case Nil
  then show ?case by simp
next
  case (Cons fn fns)
  show ?case
  proof (cases "fileDescriptorLimit \<le> length (activeQueue q)")
    case True
    then show ?thesis by simp
  next
    case False
    have a: "activeQueue (admit fn q) = activeQueue q @ [fn]"
      using Cons.prems by (simp add: admit_def Let_def set_add_def)
    have c: "called (admit fn q) = called q @ [fn]"
      by (simp add: admit_def Let_def)
    have d: "set fns \<inter> set (activeQueue (admit fn q)) = {}"
      using Cons.prems a by auto
    have k: "fileDescriptorLimit - length (activeQueue q)
               = Suc (fileDescriptorLimit - length (activeQueue (admit fn q)))"
      using False a by simp
    show ?thesis using False Cons.IH [OF _ d] Cons.prems(1) a c k by simp
  qed
qed

lemma loop_pending:
  "distinct fns \<Longrightarrow> set fns \<inter> set (activeQueue q) = {} \<Longrightarrow> pendingQueue q = fns \<Longrightarrow>
   pendingQueue (snd (processQueue_loop fns q)) =
     drop (fileDescriptorLimit - length (activeQueue q)) fns"
proof (induction fns arbitrary: q)
  case Nil
  then show ?case by simp
next
  case (Cons fn fns)
  show ?case
  proof (cases "fileDescriptorLimit \<le> length (activeQueue q)")
    case True
    with Cons.prems show ?thesis by simp
  next
    case False
    have p: "pendingQueue (admit fn q) = fns"
      using Cons.prems by (simp add: admit_def Let_def set_delete_def)
    have a: "activeQueue (admit fn q) = activeQueue q @ [fn]"
      using Cons.prems by (simp add: admit_def Let_def set_add_def)
    have d: "set fns \<inter> set (activeQueue (admit fn q)) = {}"
      using Cons.prems a by auto
    have k: "fileDescriptorLimit - length (activeQueue q)
               = Suc (fileDescriptorLimit - length (activeQueue (admit fn q)))"
      using False a by simp
    show ?thesis using False Cons.IH [OF _ d p] Cons.prems(1) k by simp
  qed
qed

lemma active_reset [simp]: "activeQueue (rq_reset q) = activeQueue q"
  by (simp add: rq_reset_def)

lemma called_reset [simp]: "called (rq_reset q) = called q"
  by (simp add: rq_reset_def)

lemma schedule_active:
  assumes w: "rq_wf q" and low: "2 * length (activeQueue q) < fileDescriptorLimit"
  shows "activeQueue (schedule q) =
           activeQueue q @ take (fileDescriptorLimit - length (activeQueue q)) (pendingQueue q @ [nextResolver q]) \<and>
         called (schedule q) =
           called q @ take (fileDescriptorLimit - length (activeQueue q)) (pendingQueue q @ [nextResolver q])"
proof -
  define q1 where "q1 = q\<lparr>nextResolver := Suc (nextResolver q),
      pendingQueue := set_add (nextResolver q) (pendingQueue q)\<rparr>"
  have fresh: "nextResolver q \<notin> set (pendingQueue q)" "nextResolver q \<notin> set (activeQueue q)"
    using w by (auto simp: rq_wf_def)
  have p1: "pendingQueue q1 = pendingQueue q @ [nextResolver q]"
    using fresh by (simp add: q1_def set_add_def)
  have a1: "activeQueue q1 = activeQueue q" and c1: "called q1 = called q"
    by (simp_all add: q1_def)
  have s: "schedule q = processQueue q1"
    using low by (simp add: schedule_def rq_add_def Let_def q1_def)
  have d: "distinct (pendingQueue q1)" "set (pendingQueue q1) \<inter> set (activeQueue q1) = {}"
    using w fresh p1 a1 by (auto simp: rq_wf_def)
  note L = loop_active [OF d]
  have nl: "\<not> fileDescriptorLimit \<le> length (activeQueue q1)" using low a1 by simp
  have "activeQueue (processQueue q1) = activeQueue (snd (processQueue_loop (pendingQueue q1) q1))
      \<and> called (processQueue q1) = called (snd (processQueue_loop (pendingQueue q1) q1))"
    using nl p1 by (auto simp: processQueue_def split: prod.splits bool.splits)
  with L s p1 a1 c1 show ?thesis by simp
qed

lemma in_take_snoc:
  "n \<notin> set ps \<Longrightarrow> n \<in> set (take k (ps @ [n])) \<longleftrightarrow> length ps < k"
  by (auto simp: take_Cons' dest: in_set_takeD)

lemma schedule_admitted_iff:
  assumes w: "rq_wf q" and low: "2 * length (activeQueue q) < fileDescriptorLimit"
  shows "(nextResolver q \<in> set (activeQueue (schedule q))) =
           (length (pendingQueue q) < fileDescriptorLimit - length (activeQueue q))"
    and "(nextResolver q \<in> set (called (schedule q))) =
           (length (pendingQueue q) < fileDescriptorLimit - length (activeQueue q))"
proof -
  have fresh: "nextResolver q \<notin> set (pendingQueue q)" "nextResolver q \<notin> set (activeQueue q)"
      "nextResolver q \<notin> set (called q)"
    using w by (auto simp: rq_wf_def)
  note sa = schedule_active [OF w low]
  show "(nextResolver q \<in> set (activeQueue (schedule q))) =
           (length (pendingQueue q) < fileDescriptorLimit - length (activeQueue q))"
    using sa fresh by (simp add: in_take_snoc del: take_append)
  show "(nextResolver q \<in> set (called (schedule q))) =
           (length (pendingQueue q) < fileDescriptorLimit - length (activeQueue q))"
    using sa fresh by (simp add: in_take_snoc del: take_append)
qed

text \<open>The callers that \<open>schedule\<close> leaves pending below half the limit.\<close>

lemma schedule_low:
  assumes w: "rq_wf q" and low: "2 * length (activeQueue q) < fileDescriptorLimit"
  shows "pendingQueue (schedule q) =
           drop (fileDescriptorLimit - length (activeQueue q)) (pendingQueue q @ [nextResolver q])"
    and "nextResolver (schedule q) = Suc (nextResolver q)"
proof -
  define q1 where "q1 = q\<lparr>nextResolver := Suc (nextResolver q),
      pendingQueue := set_add (nextResolver q) (pendingQueue q)\<rparr>"
  have fresh: "nextResolver q \<notin> set (pendingQueue q)" "nextResolver q \<notin> set (activeQueue q)"
    using w by (auto simp: rq_wf_def)
  have p1: "pendingQueue q1 = pendingQueue q @ [nextResolver q]"
    using fresh by (simp add: q1_def set_add_def)
  have a1: "activeQueue q1 = activeQueue q"
    by (simp add: q1_def)
  have s: "schedule q = processQueue q1"
    using low by (simp add: schedule_def rq_add_def Let_def q1_def)
  have d: "distinct (pendingQueue q1)" "set (pendingQueue q1) \<inter> set (activeQueue q1) = {}"
    using w fresh p1 a1 by (auto simp: rq_wf_def)
  note L = loop_pending [OF d refl]
  have nl: "\<not> fileDescriptorLimit \<le> length (activeQueue q1)" using low a1 by simp
  have "pendingQueue (processQueue q1) = pendingQueue (snd (processQueue_loop (pendingQueue q1) q1))"
    using nl p1 by (auto simp: processQueue_def rq_reset_def split: prod.splits bool.splits)
  with L s p1 a1 show "pendingQueue (schedule q) =
           drop (fileDescriptorLimit - length (activeQueue q)) (pendingQueue q @ [nextResolver q])"
    by simp
  have n: "nextResolver (snd (processQueue_loop fns q')) = nextResolver q'" for fns q'
    by (induction fns arbitrary: q') (simp_all add: admit_def Let_def)
  have "nextResolver (processQueue q1) = nextResolver q1"
    using n [of "pendingQueue q1" q1]
    by (auto simp: processQueue_def rq_reset_def split: prod.splits bool.splits)
  with s show "nextResolver (schedule q) = Suc (nextResolver q)"
    by (simp add: q1_def)
qed

text \<open>
  C6, as amended. After every sequence of \<open>schedule\<close> calls, releases and polling
  ticks the active set is within the hard limit \<open>fileDescriptorLimit\<close>, and it has been
  after every single addition to it. A \<open>schedule\<close> call made while the active set is
  below half the limit admits the pending callers and then the new one in their order,
  as far as the active set has room up to the limit, and leaves the others pending in
  that order: the new caller is admitted at once exactly when fewer callers are pending
  than the active set has room for; otherwise it stays pending, last in the queue behind
  the earlier callers that stay pending.
\<close>

theorem retry_queue_limit_and_admission:
  assumes "q = rq_run ops new_RetryQueue"
  shows "length (activeQueue q) \<le> maxActive q \<and> maxActive q \<le> fileDescriptorLimit \<and>
         (2 * length (activeQueue q) < fileDescriptorLimit \<longrightarrow>
            (nextResolver q \<in> set (activeQueue (schedule q))) =
              (length (pendingQueue q) < fileDescriptorLimit - length (activeQueue q)) \<and>
            (nextResolver q \<in> set (called (schedule q))) =
              (length (pendingQueue q) < fileDescriptorLimit - length (activeQueue q)) \<and>
            activeQueue (schedule q) =
              activeQueue q @ take (fileDescriptorLimit - length (activeQueue q)) (pendingQueue q @ [nextResolver q]) \<and>
            called (schedule q) =
              called q @ take (fileDescriptorLimit - length (activeQueue q)) (pendingQueue q @ [nextResolver q]) \<and>
            pendingQueue (schedule q) =
              drop (fileDescriptorLimit - length (activeQueue q)) (pendingQueue q @ [nextResolver q]) \<and>
            (\<not> length (pendingQueue q) < fileDescriptorLimit - length (activeQueue q) \<longrightarrow>
               pendingQueue (schedule q) =
                 drop (fileDescriptorLimit - length (activeQueue q)) (pendingQueue q) @ [nextResolver q]))"
proof -
  have w: "rq_wf q" unfolding assms by (rule wf_run [OF wf_new])
  have b: "bounded q" unfolding assms by (rule bounded_run [OF bounded_new])
  have p: "peak_ok q" unfolding assms by (rule peak_run [OF peak_new])
  have limit: "length (activeQueue q) \<le> maxActive q \<and> maxActive q \<le> fileDescriptorLimit"
    using b p by (simp add: bounded_def peak_ok_def)
  have admission: "(nextResolver q \<in> set (activeQueue (schedule q))) =
              (length (pendingQueue q) < fileDescriptorLimit - length (activeQueue q)) \<and>
            (nextResolver q \<in> set (called (schedule q))) =
              (length (pendingQueue q) < fileDescriptorLimit - length (activeQueue q)) \<and>
            activeQueue (schedule q) =
              activeQueue q @ take (fileDescriptorLimit - length (activeQueue q)) (pendingQueue q @ [nextResolver q]) \<and>
            called (schedule q) =
              called q @ take (fileDescriptorLimit - length (activeQueue q)) (pendingQueue q @ [nextResolver q]) \<and>
            pendingQueue (schedule q) =
              drop (fileDescriptorLimit - length (activeQueue q)) (pendingQueue q @ [nextResolver q]) \<and>
            (\<not> length (pendingQueue q) < fileDescriptorLimit - length (activeQueue q) \<longrightarrow>
               pendingQueue (schedule q) =
                 drop (fileDescriptorLimit - length (activeQueue q)) (pendingQueue q) @ [nextResolver q])"
    if low: "2 * length (activeQueue q) < fileDescriptorLimit"
  proof -
    note a = schedule_admitted_iff [OF w low] and sa = schedule_active [OF w low]
      and sl = schedule_low(1) [OF w low]
    have behind: "pendingQueue (schedule q) =
                 drop (fileDescriptorLimit - length (activeQueue q)) (pendingQueue q) @ [nextResolver q]"
      if "\<not> length (pendingQueue q) < fileDescriptorLimit - length (activeQueue q)"
      unfolding sl using that by simp
    from a sa sl behind show ?thesis by blast
  qed
  from limit admission show ?thesis by blast
qed

lemma small_run:
  "rq_run [Schedule, Schedule, Release 0] new_RetryQueue =
     \<lparr> intervalId = False, activeQueue = [1], pendingQueue = [], nextResolver = 2,
       called = [0, 1], maxActive = 2 \<rparr>"
  by (simp add: new_RetryQueue_def schedule_def rq_add_def processQueue_def admit_def
      release_def rq_reset_def set_add_def set_delete_def fileDescriptorLimit_def Let_def)

lemma schedule_high:
  assumes w: "rq_wf q" and high: "\<not> 2 * length (activeQueue q) < fileDescriptorLimit"
  shows "pendingQueue (schedule q) = pendingQueue q @ [nextResolver q]"
    and "activeQueue (schedule q) = activeQueue q"
    and "nextResolver (schedule q) = Suc (nextResolver q)"
proof -
  have fresh: "nextResolver q \<notin> set (pendingQueue q)"
    using w by (auto simp: rq_wf_def)
  show "pendingQueue (schedule q) = pendingQueue q @ [nextResolver q]"
    using high fresh by (simp add: schedule_def rq_add_def Let_def set_add_def)
  show "activeQueue (schedule q) = activeQueue q"
    using high by (simp add: schedule_def rq_add_def Let_def)
  show "nextResolver (schedule q) = Suc (nextResolver q)"
    using high by (simp add: schedule_def rq_add_def Let_def)
qed

text \<open>A burst of \<open>schedule\<close> calls on a queue with nothing pending is admitted at once.\<close>

lemma burst_admitted:
  "rq_wf q \<Longrightarrow> pendingQueue q = [] \<Longrightarrow> 2 * (length (activeQueue q) + n) \<le> fileDescriptorLimit \<Longrightarrow>
   pendingQueue (rq_run (replicate n Schedule) q) = [] \<and>
   activeQueue (rq_run (replicate n Schedule) q) = activeQueue q @ [nextResolver q ..< nextResolver q + n] \<and>
   nextResolver (rq_run (replicate n Schedule) q) = nextResolver q + n"
proof (induction n arbitrary: q)
  case 0
  then show ?case by simp
next
  case (Suc n)
  have low: "2 * length (activeQueue q) < fileDescriptorLimit" using Suc.prems(3) by simp
  note sa = schedule_active [OF Suc.prems(1) low] and sl = schedule_low [OF Suc.prems(1) low]
  have k: "0 < fileDescriptorLimit - length (activeQueue q)" using low by simp
  have a: "activeQueue (schedule q) = activeQueue q @ [nextResolver q]"
    using sa Suc.prems(2) k by (simp add: take_Cons')
  have p: "pendingQueue (schedule q) = []"
    using sl(1) Suc.prems(2) k by (simp add: drop_Cons')
  have w: "rq_wf (schedule q)" using wf_step [OF Suc.prems(1), of Schedule] by simp
  have b: "2 * (length (activeQueue (schedule q)) + n) \<le> fileDescriptorLimit"
    using a Suc.prems(3) by simp
  show ?case using Suc.IH [OF w p b] a sl(2) by (simp add: upt_rec [of "nextResolver q"])
qed

text \<open>Calls that arrive while half of the limit is active are queued.\<close>

lemma burst_queued:
  "rq_wf q \<Longrightarrow> \<not> 2 * length (activeQueue q) < fileDescriptorLimit \<Longrightarrow>
   length (pendingQueue (rq_run (replicate n Schedule) q)) = length (pendingQueue q) + n \<and>
   activeQueue (rq_run (replicate n Schedule) q) = activeQueue q"
proof (induction n arbitrary: q)
  case 0
  then show ?case by simp
next
  case (Suc n)
  note sh = schedule_high [OF Suc.prems]
  have w: "rq_wf (schedule q)" using wf_step [OF Suc.prems(1), of Schedule] by simp
  have h: "\<not> 2 * length (activeQueue (schedule q)) < fileDescriptorLimit"
    using sh(2) Suc.prems(2) by simp
  show ?case using Suc.IH [OF w h] sh by simp
qed

lemma rq_run_append: "rq_run (xs @ ys) q = rq_run ys (rq_run xs q)"
  by (induction xs arbitrary: q) simp_all

lemma example_burst_state:
  "length (activeQueue (rq_run example_burst new_RetryQueue)) = 1023 \<and>
   length (pendingQueue (rq_run example_burst new_RetryQueue)) = 1025"
proof -
  define q1 where "q1 = rq_run (replicate 1024 Schedule) new_RetryQueue"
  define q2 where "q2 = rq_run (replicate 1025 Schedule) q1"
  have b1: "pendingQueue q1 = [] \<and> activeQueue q1 = [] @ [0 ..< 0 + 1024] \<and> nextResolver q1 = 0 + 1024"
    using burst_admitted [OF wf_new, of 1024]
    by (simp add: q1_def new_RetryQueue_def fileDescriptorLimit_def)
  have w1: "rq_wf q1" unfolding q1_def by (rule wf_run [OF wf_new])
  have h1: "\<not> 2 * length (activeQueue q1) < fileDescriptorLimit"
    using b1 by (simp add: fileDescriptorLimit_def)
  have b2: "length (pendingQueue q2) = 1025 \<and> activeQueue q2 = [0 ..< 1024]"
    using burst_queued [OF w1 h1, of 1025] b1 by (simp add: q2_def)
  have r: "rq_run example_burst new_RetryQueue = release 0 q2"
    by (simp add: example_burst_def rq_run_append q1_def q2_def)
  have "removeAll (0::nat) [0 ..< 1024] = [1 ..< 1024]"
    by (simp add: upt_rec [of 0 1024])
  then show ?thesis using b2 r by (simp add: release_def set_delete_def)
qed

theorem retry_queue_limit_and_admission_witness:
  "maxActive (rq_run [Schedule, Schedule, Release 0] new_RetryQueue) \<le> fileDescriptorLimit \<and>
   2 * length (activeQueue (rq_run [Schedule, Schedule, Release 0] new_RetryQueue)) < fileDescriptorLimit \<and>
   nextResolver (rq_run [Schedule, Schedule, Release 0] new_RetryQueue)
     \<in> set (activeQueue (schedule (rq_run [Schedule, Schedule, Release 0] new_RetryQueue))) \<and>
   pendingQueue (schedule (rq_run [Schedule, Schedule, Release 0] new_RetryQueue)) = [] \<and>
   pendingQueue (schedule (rq_run example_burst new_RetryQueue))
     = [nextResolver (rq_run example_burst new_RetryQueue)]"
proof -
  have small: "maxActive (rq_run [Schedule, Schedule, Release 0] new_RetryQueue) \<le> fileDescriptorLimit \<and>
   2 * length (activeQueue (rq_run [Schedule, Schedule, Release 0] new_RetryQueue)) < fileDescriptorLimit \<and>
   nextResolver (rq_run [Schedule, Schedule, Release 0] new_RetryQueue)
     \<in> set (activeQueue (schedule (rq_run [Schedule, Schedule, Release 0] new_RetryQueue))) \<and>
   pendingQueue (schedule (rq_run [Schedule, Schedule, Release 0] new_RetryQueue)) = []"
    using retry_queue_limit_and_admission [OF refl, of "[Schedule, Schedule, Release 0]"]
    unfolding small_run by (simp add: fileDescriptorLimit_def)
  have burst: "pendingQueue (schedule (rq_run example_burst new_RetryQueue))
     = [nextResolver (rq_run example_burst new_RetryQueue)]"
    using retry_queue_limit_and_admission [OF refl, of example_burst] example_burst_state
    by (simp add: fileDescriptorLimit_def)
  from small burst show ?thesis by simp
qed

text \<open>
  C6 as stated fails in its second part: after the example burst 1023 resolvers are
  active, fewer than half the limit, and 1025 are pending. The next \<open>schedule\<close> call
  fills the active set with the pending callers ahead of it and is not admitted.
\<close>

theorem schedule_below_half_counterexample:
  "2 * length (activeQueue (rq_run example_burst new_RetryQueue)) < fileDescriptorLimit \<and>
   nextResolver (rq_run example_burst new_RetryQueue)
     \<notin> set (activeQueue (schedule (rq_run example_burst new_RetryQueue)))"
proof -
  have w: "rq_wf (rq_run example_burst new_RetryQueue)" by (rule wf_run [OF wf_new])
  have low: "2 * length (activeQueue (rq_run example_burst new_RetryQueue)) < fileDescriptorLimit"
    using example_burst_state by (simp add: fileDescriptorLimit_def)
  show ?thesis
    using low schedule_admitted_iff(1) [OF w low] example_burst_state
    by (simp add: fileDescriptorLimit_def)
qed

section \<open>Properties of the stat gateway\<close>










section \<open>Properties of the rename correlator\<close>

lemma emitEvent_simps [simp]:
  "emitted (emitEvent now ev p q w) = emitted w @ [(now, ev, p, q)]"
  "fileSystemStateManager (emitEvent now ev p q w) = fileSystemStateManager w"
  "fileLocks (emitEvent now ev p q w) = fileLocks w"
  "directoryLocks (emitEvent now ev p q w) = directoryLocks w"
  "resolvers (emitEvent now ev p q w) = resolvers w"
  "lr_intervalId (emitEvent now ev p q w) = lr_intervalId w"
  "nextClosure (emitEvent now ev p q w) = nextClosure w"
  by (simp_all add: emitEvent_def)

lemma LockResolver_remove_simps [simp]:
  "emitted (LockResolver_remove fn w) = emitted w"
  "fileSystemStateManager (LockResolver_remove fn w) = fileSystemStateManager w"
  "fileLocks (LockResolver_remove fn w) = fileLocks w"
  "directoryLocks (LockResolver_remove fn w) = directoryLocks w"
  "resolvers (LockResolver_remove fn w) = filter (\<lambda>r. fst r \<noteq> fn) (resolvers w)"
  "lr_intervalId (LockResolver_remove fn w) = lr_intervalId w"
  "nextClosure (LockResolver_remove fn w) = nextClosure w"
  by (simp_all add: LockResolver_remove_def split_def)

lemma LockResolver_add_simps [simp]:
  "emitted (LockResolver_add fn ms now w) = emitted w"
  "fileSystemStateManager (LockResolver_add fn ms now w) = fileSystemStateManager w"
  "fileLocks (LockResolver_add fn ms now w) = fileLocks w"
  "directoryLocks (LockResolver_add fn ms now w) = directoryLocks w"
  "resolvers (LockResolver_add fn ms now w) = map_set fn (now + ms) (resolvers w)"
  "lr_intervalId (LockResolver_add fn ms now w) = True"
  "nextClosure (LockResolver_add fn ms now w) = nextClosure w"
  by (simp_all add: LockResolver_add_def LockResolver_init_def)

lemma with_fileSystemLocker_simps [simp]:
  "emitted (with_fileSystemLocker t f w) = emitted w"
  "fileSystemStateManager (with_fileSystemLocker t f w) = fileSystemStateManager w"
  "resolvers (with_fileSystemLocker t f w) = resolvers w"
  "lr_intervalId (with_fileSystemLocker t f w) = lr_intervalId w"
  "nextClosure (with_fileSystemLocker t f w) = nextClosure w"
  "fileSystemLocker t' (with_fileSystemLocker t f w) =
     (if t' = t then f (fileSystemLocker t w) else fileSystemLocker t' w)"
  by (cases t; cases t'; simp add: with_fileSystemLocker_def fileSystemLocker_def)+

lemma fileSystemLocker_frame [simp]:
  "fileSystemLocker t (emitEvent now ev p q w) = fileSystemLocker t w"
  "fileSystemLocker t (LockResolver_remove fn w) = fileSystemLocker t w"
  "fileSystemLocker t (LockResolver_add fn ms now w) = fileSystemLocker t w"
  "fileSystemLocker t (w\<lparr> nextClosure := n \<rparr>) = fileSystemLocker t w"
  by (simp_all add: fileSystemLocker_def)

lemma locker_simps [simp]:
  "add_locks (locker_addLock i c l) = (add_locks l)(i \<mapsto> c)"
  "unlink_locks (locker_addLock i c l) = unlink_locks l"
  "add_locks (locker_addUnlink i c l) = add_locks l"
  "unlink_locks (locker_addUnlink i c l) = (unlink_locks l)(i \<mapsto> c)"
  "add_locks (locker_removeLock i l) = (add_locks l)(i := None)"
  "unlink_locks (locker_removeLock i l) = unlink_locks l"
  "add_locks (locker_removeUnlink i l) = add_locks l"
  "unlink_locks (locker_removeUnlink i l) = (unlink_locks l)(i := None)"
  "locker_getLock i l = add_locks l i"
  "locker_getUnlink i l = unlink_locks l i"
  by (simp_all add: locker_addLock_def locker_addUnlink_def locker_removeLock_def
      locker_removeUnlink_def locker_getLock_def locker_getUnlink_def)

lemma unlinkLock_cleanup_simps [simp]:
  "emitted (unlinkLock_cleanup c w) = emitted w"
  "fileSystemStateManager (unlinkLock_cleanup c w) = fileSystemStateManager w"
  "resolvers (unlinkLock_cleanup c w) = filter (\<lambda>r. fst r \<noteq> UnlinkFree c) (resolvers w)"
  "lr_intervalId (unlinkLock_cleanup c w) = lr_intervalId w"
  "nextClosure (unlinkLock_cleanup c w) = nextClosure w"
  "fileSystemLocker t (unlinkLock_cleanup c w) =
     (if t = c_inodeType c then locker_removeUnlink (c_inodeNumber c) (fileSystemLocker t w)
      else fileSystemLocker t w)"
  by (simp_all add: unlinkLock_cleanup_def)

lemma addLock_cleanup_simps [simp]:
  "emitted (addLock_cleanup c w) = emitted w"
  "fileSystemStateManager (addLock_cleanup c w) = fileSystemStateManager w"
  "resolvers (addLock_cleanup c w) = filter (\<lambda>r. fst r \<noteq> AddFree c) (resolvers w)"
  "lr_intervalId (addLock_cleanup c w) = lr_intervalId w"
  "nextClosure (addLock_cleanup c w) = nextClosure w"
  "fileSystemLocker t (addLock_cleanup c w) =
     (if t = c_inodeType c then locker_removeLock (c_inodeNumber c) (fileSystemLocker t w)
      else fileSystemLocker t w)"
  by (simp_all add: addLock_cleanup_def)

text \<open>What \<open>resolve\<close> emits when a removal lock is parked for its inode.\<close>

lemma resolve_parked:
  assumes "unlink_locks (fileSystemLocker (c_inodeType c) w) (c_inodeNumber c) = Some u"
  shows "emitted (resolve c now w) = emitted w @
           (if c_targetPath c = c_targetPath u
            then (if c_inodeType c = FILE \<and> stats (fileSystemStateManager w) (c_targetPath c) \<noteq> None
                  then [(now, CHANGE, c_targetPath c, None)] else [])
            else [(now, lockEvent_rename (c_inodeType c), c_targetPath u, Some (c_targetPath c))])"
  using assms by (simp add: resolve_def overridden_def Let_def lockEvent_change_def)

lemma resolve_not_parked:
  "unlink_locks (fileSystemLocker (c_inodeType c) w) (c_inodeNumber c) = None \<Longrightarrow> resolve c now w = w"
  by (simp add: resolve_def)

lemma addLock_parked:
  assumes "unlink_locks (fileSystemLocker t w) I = Some u" and "I \<noteq> 0"
  shows "emitted (addLock (Some I) A t ms now w) = emitted w @
           (if A = c_targetPath u
            then (if t = FILE \<and> stats (fileSystemStateManager w) A \<noteq> None
                  then [(now, CHANGE, A, None)] else [])
            else [(now, lockEvent_rename t, c_targetPath u, Some A)])"
  using assms by (auto simp: addLock_def falsy_def Let_def resolve_parked)

section \<open>Properties of the timer multiplexer\<close>

lemma emit_simps [simp]:
  "fileSystemStateManager (emit i p t now w) = fileSystemStateManager w"
  "fileLocks (emit i p t now w) = fileLocks w"
  "directoryLocks (emit i p t now w) = directoryLocks w"
  "resolvers (emit i p t now w) = resolvers w"
  "lr_intervalId (emit i p t now w) = lr_intervalId w"
  "nextClosure (emit i p t now w) = nextClosure w"
  "fileSystemLocker t' (emit i p t now w) = fileSystemLocker t' w"
  by (simp_all add: emit_def split: option.splits)

lemma lockEvent_distinct [simp]:
  "lockEvent_add t' \<noteq> lockEvent_unlink t" "lockEvent_rename t' \<noteq> lockEvent_unlink t"
  "lockEvent_unlink t' = lockEvent_unlink t \<longleftrightarrow> t' = t"
  "lockEvent_add t' = lockEvent_add t \<longleftrightarrow> t' = t"
  "lockEvent_rename t' = lockEvent_rename t \<longleftrightarrow> t' = t"
  by (cases t; cases t'; simp add: lockEvent_add_def lockEvent_rename_def lockEvent_unlink_def)+

lemma removed_events_emitEvent [simp]:
  "removed_events A t (emitEvent now ev p q w) =
     removed_events A t w @ (if ev = lockEvent_unlink t \<and> p = A then [(now, ev, p, q)] else [])"
  by (simp add: removed_events_def)

lemma removed_events_cong: "emitted w' = emitted w \<Longrightarrow> removed_events A t w' = removed_events A t w"
  by (simp add: removed_events_def)

lemma removed_events_emit [simp]:
  "removed_events A t (emit i p t' now w) = removed_events A t w"
  by (simp add: emit_def split: option.splits)

lemma call_resolver_resolvers:
  "resolvers (call_resolver fn now w) = filter (\<lambda>r. fst r \<noteq> fn) (resolvers w)"
  by (cases fn) (simp_all add: addLock_free_def unlinkLock_free_def)

lemma call_resolver_removed:
  "removed_events A t (call_resolver fn now w) =
     removed_events A t w @ (if is_removal_timer A t (fn, d) then [(now, lockEvent_unlink t, A, None)] else [])"
proof (cases fn)
  case (AddFree c)
  have "removed_events A t (addLock_cleanup c w) = removed_events A t w"
    by (rule removed_events_cong) simp
  then show ?thesis using AddFree by (simp add: addLock_free_def)
next
  case (UnlinkFree c)
  have "removed_events A t (unlinkLock_cleanup c w) = removed_events A t w"
    by (rule removed_events_cong) simp
  then show ?thesis using UnlinkFree by (auto simp: unlinkLock_free_def)
qed

lemma call_resolver_interval [simp]:
  "lr_intervalId (call_resolver fn now w) = lr_intervalId w"
  by (cases fn) (simp_all add: addLock_free_def unlinkLock_free_def)

lemma resolve_loop_resolvers:
  "resolvers (resolve_loop now rs w) =
     filter (\<lambda>r. fst r \<notin> fst ` set (filter (due now) rs)) (resolvers w)"
proof (induction rs arbitrary: w)
  case Nil
  then show ?case by simp
next
  case (Cons r rs)
  obtain fn d where r: "r = (fn, d)" by (cases r)
  show ?case
  proof (cases "d > now")
    case True
    then show ?thesis using Cons.IH [of w] r by (simp add: due_def)
  next
    case False
    have "resolvers (call_resolver fn now (LockResolver_remove fn w)) = filter (\<lambda>r. fst r \<noteq> fn) (resolvers w)"
      by (simp add: call_resolver_resolvers)
    then show ?thesis
      using False r Cons.IH [of "call_resolver fn now (LockResolver_remove fn w)"]
      by (simp add: due_def)
  qed
qed

lemma resolve_loop_interval [simp]:
  "lr_intervalId (resolve_loop now rs w) = lr_intervalId w"
proof (induction rs arbitrary: w)
  case Nil
  then show ?case by simp
next
  case (Cons r rs)
  obtain fn d where r: "r = (fn, d)" by (cases r)
  show ?case unfolding r by (simp add: Cons.IH)
qed

lemma resolve_loop_removed:
  "removed_events A t (resolve_loop now rs w) =
     removed_events A t w @
       map (\<lambda>r. (now, lockEvent_unlink t, A, None)) (filter (\<lambda>r. is_removal_timer A t r \<and> due now r) rs)"
proof (induction rs arbitrary: w)
  case Nil
  then show ?case by simp
next
  case (Cons r rs)
  obtain fn d where r: "r = (fn, d)" by (cases r)
  show ?case
  proof (cases "d > now")
    case True
    then show ?thesis using Cons.IH [of w] r by (simp add: due_def)
  next
    case False
    have a: "removed_events A t (LockResolver_remove fn w) = removed_events A t w"
      by (rule removed_events_cong) simp
    have b: "resolve_loop now (r # rs) w = resolve_loop now rs (call_resolver fn now (LockResolver_remove fn w))"
      using False r by simp
    have c: "due now r" using False r by (simp add: due_def)
    show ?thesis
      unfolding b Cons.IH call_resolver_removed [of A t fn now "LockResolver_remove fn w" d] a
      using c r by simp
  qed
qed

lemma LockResolver_reset_simps [simp]:
  "emitted (LockResolver_reset w) = emitted w"
  "fileSystemStateManager (LockResolver_reset w) = fileSystemStateManager w"
  "fileLocks (LockResolver_reset w) = fileLocks w"
  "directoryLocks (LockResolver_reset w) = directoryLocks w"
  "resolvers (LockResolver_reset w) = resolvers w"
  "nextClosure (LockResolver_reset w) = nextClosure w"
  "fileSystemLocker t (LockResolver_reset w) = fileSystemLocker t w"
  by (simp_all add: LockResolver_reset_def fileSystemLocker_def)

lemma filter_swap: "filter P (filter Q xs) = filter Q (filter P xs)"
  by (induction xs) auto


lemma LockResolver_resolve_removed:
  "removed_events A t (LockResolver_resolve now w) =
     removed_events A t w @
       map (\<lambda>r. (now, lockEvent_unlink t, A, None)) (filter (due now) (removal_timers A t w))"
proof -
  have "removed_events A t (LockResolver_resolve now w) =
          removed_events A t (resolve_loop now (resolvers w) w)"
    by (rule removed_events_cong) (simp add: LockResolver_resolve_def Let_def)
  also have "\<dots> = removed_events A t w @
       map (\<lambda>r. (now, lockEvent_unlink t, A, None))
         (filter (\<lambda>r. is_removal_timer A t r \<and> due now r) (resolvers w))"
    by (rule resolve_loop_removed)
  also have "filter (\<lambda>r. is_removal_timer A t r \<and> due now r) (resolvers w)
               = filter (due now) (removal_timers A t w)"
    by (simp add: removal_timers_def)
  finally show ?thesis .
qed

lemma LockResolver_resolve_resolvers:
  "resolvers (LockResolver_resolve now w) =
     filter (\<lambda>r. fst r \<notin> fst ` set (filter (due now) (resolvers w))) (resolvers w)"
  by (simp add: LockResolver_resolve_def Let_def resolve_loop_resolvers)

lemma LockResolver_resolve_timers:
  "removal_timers A t (LockResolver_resolve now w) =
     filter (\<lambda>r. fst r \<notin> fst ` set (filter (due now) (resolvers w))) (removal_timers A t w)"
  unfolding removal_timers_def LockResolver_resolve_resolvers
  by (rule filter_swap)


text \<open>A tick when no removal timer of the path is pending.\<close>

lemma tick_no_timer:
  assumes "removal_timers A t w = []"
  shows "removal_timers A t (tick now w) = [] \<and> removed_events A t (tick now w) = removed_events A t w"
  using assms by (simp add: tick_def LockResolver_resolve_timers LockResolver_resolve_removed)



lemma run_ticks_no_timer:
  "removal_timers A t w = [] \<Longrightarrow>
   removal_timers A t (run_ticks ticks w) = [] \<and>
   removed_events A t (run_ticks ticks w) = removed_events A t w"
proof (induction ticks arbitrary: w)
  case Nil
  then show ?case by simp
next
  case (Cons now ticks)
  from tick_no_timer [OF Cons.prems, of now] Cons.IH [of "tick now w"]
  show ?case by simp
qed




lemma map_set_new: "k \<notin> fst ` set kvs \<Longrightarrow> map_set k v kvs = kvs @ [(k, v)]"
  by (simp add: map_set_def)

lemma getLockTargetEvent_unlink:
  "getInodeNumber (fileSystemStateManager w) A (lockEvent_unlink t) (Some t) = inodeNumber' \<Longrightarrow>
   getLockTargetEvent (lockEvent_unlink t) A ms now w = unlinkLock inodeNumber' A t ms now w"
  by (cases t) (simp_all add: getLockTargetEvent_def processLock_def lockEvent_unlink_def)

lemma getLockTargetEvent_add:
  "getInodeNumber (fileSystemStateManager w) A (lockEvent_add t) (Some t) = inodeNumber' \<Longrightarrow>
   getLockTargetEvent (lockEvent_add t) A ms now w = addLock inodeNumber' A t ms now w"
  by (cases t) (simp_all add: getLockTargetEvent_def processLock_def lockEvent_add_def)

text \<open>Parking a removal when no creation is parked for the inode.\<close>

lemma unlinkLock_parks:
  fixes A :: Path and ms :: "int option" and now :: int
  assumes "I \<noteq> 0" and "add_locks (fileSystemLocker t w) I = None"
  defines "c \<equiv> \<lparr> cid = nextClosure w, c_inodeNumber = I, c_targetPath = A, c_inodeType = t \<rparr>"
  defines "d \<equiv> now + (case ms of None \<Rightarrow> renameTimeout | Some x \<Rightarrow> x)"
  shows "emitted (unlinkLock (Some I) A t ms now w) = emitted w"
    and "resolvers (unlinkLock (Some I) A t ms now w) = map_set (UnlinkFree c) d (resolvers w)"
    and "lr_intervalId (unlinkLock (Some I) A t ms now w)"
    and "fileSystemStateManager (unlinkLock (Some I) A t ms now w) = fileSystemStateManager w"
    and "fileSystemLocker t' (unlinkLock (Some I) A t ms now w) =
           (if t' = t then locker_addUnlink I c (fileSystemLocker t w) else fileSystemLocker t' w)"
    and "nextClosure (unlinkLock (Some I) A t ms now w) = Suc (nextClosure w)"
  using assms(1,2) by (simp_all add: unlinkLock_def falsy_def Let_def c_def d_def)





section \<open>Properties of the same-path republish\<close>

lemma lockEvent_distinct_add [simp]:
  "lockEvent_unlink t' \<noteq> lockEvent_add t" "lockEvent_rename t' \<noteq> lockEvent_add t"
  "CHANGE \<noteq> lockEvent_add t" "CHANGE \<noteq> lockEvent_unlink t"
  by (cases t; cases t'; simp add: lockEvent_add_def lockEvent_rename_def lockEvent_unlink_def)+

lemma created_events_emitEvent [simp]:
  "created_events A t (emitEvent now ev p q w) =
     created_events A t w @ (if ev = lockEvent_add t \<and> p = A then [(now, ev, p, q)] else [])"
  by (simp add: created_events_def)

lemma created_events_cong: "emitted w' = emitted w \<Longrightarrow> created_events A t w' = created_events A t w"
  by (simp add: created_events_def)

lemma created_events_emit:
  "\<not> (p = A \<and> t' = t) \<Longrightarrow> created_events A t (emit i p t' now w) = created_events A t w"
  by (auto simp: emit_def split: option.splits)

text \<open>Only the timer of a creation lock for the path emits a creation event for it.\<close>

lemma call_resolver_created:
  assumes "\<not> is_creation_timer A t (fn, d)"
  shows "created_events A t (call_resolver fn now w) = created_events A t w"
proof (cases fn)
  case (AddFree c)
  have "created_events A t (addLock_cleanup c w) = created_events A t w"
    by (rule created_events_cong) simp
  moreover have "\<not> (c_targetPath c = A \<and> c_inodeType c = t)"
    using assms AddFree by simp
  ultimately show ?thesis
    using AddFree by (simp add: addLock_free_def created_events_emit)
next
  case (UnlinkFree c)
  have "created_events A t (unlinkLock_cleanup c w) = created_events A t w"
    by (rule created_events_cong) simp
  then show ?thesis using UnlinkFree by (simp add: unlinkLock_free_def)
qed

lemma resolve_loop_created:
  "\<forall>r \<in> set rs. \<not> is_creation_timer A t r \<Longrightarrow>
   created_events A t (resolve_loop now rs w) = created_events A t w"
proof (induction rs arbitrary: w)
  case Nil
  then show ?case by simp
next
  case (Cons r rs)
  obtain fn d where r: "r = (fn, d)" by (cases r)
  have rest: "\<forall>r \<in> set rs. \<not> is_creation_timer A t r" using Cons.prems by simp
  have nc: "\<not> is_creation_timer A t (fn, d)" using Cons.prems r by simp
  show ?case
  proof (cases "d > now")
    case True
    then show ?thesis using Cons.IH [OF rest, of w] r by simp
  next
    case False
    have a: "created_events A t (LockResolver_remove fn w) = created_events A t w"
      by (rule created_events_cong) simp
    have b: "resolve_loop now (r # rs) w = resolve_loop now rs (call_resolver fn now (LockResolver_remove fn w))"
      using False r by simp
    show ?thesis
      unfolding b Cons.IH [OF rest] call_resolver_created [OF nc] a ..
  qed
qed

text \<open>A tick when no creation timer of the path is pending.\<close>

lemma tick_no_creation_timer:
  assumes "creation_timers A t w = []"
  shows "creation_timers A t (tick now w) = [] \<and> created_events A t (tick now w) = created_events A t w"
proof -
  have none: "\<forall>r \<in> set (resolvers w). \<not> is_creation_timer A t r"
    using assms by (simp add: creation_timers_def filter_empty_conv)
  have "created_events A t (LockResolver_resolve now w) = created_events A t (resolve_loop now (resolvers w) w)"
    by (rule created_events_cong) (simp add: LockResolver_resolve_def Let_def)
  then have e: "created_events A t (LockResolver_resolve now w) = created_events A t w"
    using resolve_loop_created [OF none] by simp
  have "creation_timers A t (LockResolver_resolve now w) =
          filter (\<lambda>r. fst r \<notin> fst ` set (filter (due now) (resolvers w))) (creation_timers A t w)"
    unfolding creation_timers_def LockResolver_resolve_resolvers by (rule filter_swap)
  then have c: "creation_timers A t (LockResolver_resolve now w) = []"
    using assms by simp
  from e c assms show ?thesis by (simp add: tick_def)
qed

lemma run_ticks_no_creation_timer:
  "creation_timers A t w = [] \<Longrightarrow>
   creation_timers A t (run_ticks ticks w) = [] \<and>
   created_events A t (run_ticks ticks w) = created_events A t w"
proof (induction ticks arbitrary: w)
  case Nil
  then show ?case by simp
next
  case (Cons now ticks)
  from tick_no_creation_timer [OF Cons.prems, of now] Cons.IH [of "tick now w"]
  show ?case by simp
qed

lemma filter_map_set:
  "filter (\<lambda>r. fst r \<noteq> k) (map_set k v xs) = filter (\<lambda>r. fst r \<noteq> k) xs"
proof (cases "k \<in> fst ` set xs")
  case True
  have "filter (\<lambda>r. fst r \<noteq> k) (map (\<lambda>(k', v'). if k' = k then (k', v) else (k', v')) xs)
          = filter (\<lambda>r. fst r \<noteq> k) xs"
    by (induction xs) (auto split: if_splits)
  with True show ?thesis by (simp add: map_set_def)
next
  case False
  then show ?thesis by (simp add: map_set_def)
qed

text \<open>
  A creation that arrives while the removal of its inode is parked removes both locks
  and cancels the timer of the removal; its own timer does not stay registered.
\<close>

lemma addLock_cancels:
  fixes A :: Path and ms :: "int option" and now :: int
  assumes "I \<noteq> 0" and "unlink_locks (fileSystemLocker t w) I = Some u"
    and "c_inodeNumber u = I" and "c_inodeType u = t"
  defines "c \<equiv> \<lparr> cid = nextClosure w, c_inodeNumber = I, c_targetPath = A, c_inodeType = t \<rparr>"
  defines "w2 \<equiv> addLock (Some I) A t ms now w"
  shows "add_locks (fileSystemLocker t w2) I = None"
    and "unlink_locks (fileSystemLocker t w2) I = None"
    and "resolvers w2 = filter (\<lambda>r. fst r \<noteq> UnlinkFree u \<and> fst r \<noteq> AddFree c) (resolvers w)"
proof -
  let ?d = "now + (case ms of None \<Rightarrow> renameTimeout | Some x \<Rightarrow> x)"
  show "add_locks (fileSystemLocker t w2) I = None"
    unfolding w2_def using assms(1-4)
    by (simp add: addLock_def falsy_def Let_def resolve_def overridden_def lockEvent_change_def)
  show "unlink_locks (fileSystemLocker t w2) I = None"
    unfolding w2_def using assms(1-4)
    by (simp add: addLock_def falsy_def Let_def resolve_def overridden_def lockEvent_change_def)
  have "resolvers w2 = filter (\<lambda>r. fst r \<noteq> UnlinkFree u)
                         (filter (\<lambda>r. fst r \<noteq> AddFree c) (map_set (AddFree c) ?d (resolvers w)))"
    unfolding w2_def c_def using assms(1-4)
    by (simp add: addLock_def falsy_def Let_def resolve_def overridden_def lockEvent_change_def)
  then have "resolvers w2 = filter (\<lambda>r. fst r \<noteq> UnlinkFree u)
                         (filter (\<lambda>r. fst r \<noteq> AddFree c) (resolvers w))"
    by (simp only: filter_map_set)
  also have "\<dots> = filter (\<lambda>r. fst r \<noteq> UnlinkFree u \<and> fst r \<noteq> AddFree c) (resolvers w)"
    unfolding filter_filter by (rule filter_cong) auto
  finally show "resolvers w2 = filter (\<lambda>r. fst r \<noteq> UnlinkFree u \<and> fst r \<noteq> AddFree c) (resolvers w)" .
qed

text \<open>
  C3, as amended. Let a creation-class event for path \<open>A\<close> with the recorded inode
  \<open>I\<close> (not 0) arrive while a removal lock \<open>u\<close> for the same path is parked for the
  inode in the lock namespace of the event (a parked lock was created for the inode and
  namespace of its key in every state the handler reaches: lemma \<open>reachable_wf\<close>).
  Then the correlator emits \<open>CHANGE\<close> for the path if the
  namespace is that of files and the path is present in the state cache, and emits
  nothing otherwise; in the directory namespace it never emits anything. Both locks of
  the inode are removed, the timer of the removal is cancelled and the creation leaves
  no timer of its own, so that no removal and no creation event follows for them: if no
  other timer for the path was pending, no later tick emits a removal or a creation
  event for the path.
\<close>

theorem same_path_republish:
  assumes "unlink_locks (fileSystemLocker t w) I = Some u"
    and "c_targetPath u = A" and "c_inodeNumber u = I" and "c_inodeType u = t"
    and "getInodeNumber (fileSystemStateManager w) A (lockEvent_add t) (Some t) = Some I"
    and "I \<noteq> 0"
  shows "(let w' = getLockTargetEvent (lockEvent_add t) A ms now w
          in emitted w' = emitted w @
               (if t = FILE \<and> stats (fileSystemStateManager w) A \<noteq> None
                then [(now, CHANGE, A, None)] else []) \<and>
             add_locks (fileSystemLocker t w') I = None \<and>
             unlink_locks (fileSystemLocker t w') I = None \<and>
             resolvers w' =
               filter (\<lambda>r. fst r \<noteq> UnlinkFree u \<and>
                           fst r \<noteq> AddFree \<lparr> cid = nextClosure w, c_inodeNumber = I,
                                               c_targetPath = A, c_inodeType = t \<rparr>)
                 (resolvers w) \<and>
             (removal_timers A t w = [(UnlinkFree u, d)] \<and> creation_timers A t w = [] \<longrightarrow>
                removed_events A t (run_ticks ticks w') = removed_events A t w \<and>
                created_events A t (run_ticks ticks w') = created_events A t w))"
proof -
  define w' where "w' = getLockTargetEvent (lockEvent_add t) A ms now w"
  have w': "w' = addLock (Some I) A t ms now w"
    unfolding w'_def by (rule getLockTargetEvent_add [OF assms(5)])
  have e: "emitted w' = emitted w @
               (if t = FILE \<and> stats (fileSystemStateManager w) A \<noteq> None
                then [(now, CHANGE, A, None)] else [])"
    unfolding w' using addLock_parked [OF assms(1) assms(6), of A ms now] assms(2) by simp
  note cancels = addLock_cancels [where A = A and ms = ms and now = now, OF assms(6,1,3,4), folded w']
  have later: "removed_events A t (run_ticks ticks w') = removed_events A t w \<and>
               created_events A t (run_ticks ticks w') = created_events A t w"
    if r: "removal_timers A t w = [(UnlinkFree u, d)]" and c: "creation_timers A t w = []"
  proof -
    have "removal_timers A t w' =
            filter (\<lambda>r. fst r \<noteq> UnlinkFree u \<and>
                        fst r \<noteq> AddFree \<lparr> cid = nextClosure w, c_inodeNumber = I,
                                            c_targetPath = A, c_inodeType = t \<rparr>)
              (removal_timers A t w)"
      unfolding removal_timers_def cancels(3) by (rule filter_swap)
    then have r': "removal_timers A t w' = []" unfolding r by simp
    have "creation_timers A t w' =
            filter (\<lambda>r. fst r \<noteq> UnlinkFree u \<and>
                        fst r \<noteq> AddFree \<lparr> cid = nextClosure w, c_inodeNumber = I,
                                            c_targetPath = A, c_inodeType = t \<rparr>)
              (creation_timers A t w)"
      unfolding creation_timers_def cancels(3) by (rule filter_swap)
    then have c': "creation_timers A t w' = []" unfolding c by simp
    have "removed_events A t w' = removed_events A t w"
      unfolding removed_events_def e by simp
    moreover have "created_events A t w' = created_events A t w"
      unfolding created_events_def e by simp
    ultimately show ?thesis
      using run_ticks_no_timer [OF r', of ticks] run_ticks_no_creation_timer [OF c', of ticks]
      by simp
  qed
  from e cancels later show ?thesis
    unfolding Let_def w'_def [symmetric] by blast
qed

lemma example_file_parked_facts:
  "unlink_locks (fileSystemLocker FILE example_file_parked) 1 =
     Some \<lparr> cid = 0, c_inodeNumber = 1, c_targetPath = ''/a'', c_inodeType = FILE \<rparr>"
  "getInodeNumber (fileSystemStateManager example_file_parked) ''/a'' ADD (Some FILE) = Some 1"
  "stats (fileSystemStateManager example_file_parked) ''/a'' \<noteq> None"
  "emitted example_file_parked = []"
  "resolvers example_file_parked =
     [(UnlinkFree \<lparr> cid = 0, c_inodeNumber = 1, c_targetPath = ''/a'', c_inodeType = FILE \<rparr>, 250)]"
  "nextClosure example_file_parked = 1"
  by code_simp+

theorem same_path_republish_witness:
  "emitted (getLockTargetEvent ADD ''/a'' None 5 example_file_parked) = [(5, CHANGE, ''/a'', None)] \<and>
   resolvers (getLockTargetEvent ADD ''/a'' None 5 example_file_parked) = [] \<and>
   removed_events ''/a'' FILE
     (run_ticks [50, 100, 150, 200, 250, 300] (getLockTargetEvent ADD ''/a'' None 5 example_file_parked)) = [] \<and>
   created_events ''/a'' FILE
     (run_ticks [50, 100, 150, 200, 250, 300] (getLockTargetEvent ADD ''/a'' None 5 example_file_parked)) = []"
  using same_path_republish [of FILE example_file_parked 1
      "\<lparr> cid = 0, c_inodeNumber = 1, c_targetPath = ''/a'', c_inodeType = FILE \<rparr>" "''/a''" None 5
      250 "[50, 100, 150, 200, 250, 300]"]
    example_file_parked_facts
  by (simp add: lockEvent_add_def Let_def removal_timers_def creation_timers_def
      removed_events_def created_events_def)

text \<open>
  C3 as stated fails in the directory namespace: \<^verbatim>\<open>DirectoryEvent\<close> has no \<^verbatim>\<open>change\<close>,
  so nothing is emitted although the path is present in the cache.
\<close>

theorem directory_republish_counterexample:
  "unlink_locks (fileSystemLocker DIR example_dir_parked) 7 =
     Some \<lparr> cid = 0, c_inodeNumber = 7, c_targetPath = ''/d'', c_inodeType = DIR \<rparr> \<and>
   getInodeNumber (fileSystemStateManager example_dir_parked) ''/d'' ADD_DIR (Some DIR) = Some 7 \<and>
   stats (fileSystemStateManager example_dir_parked) ''/d'' \<noteq> None \<and>
   emitted (getLockTargetEvent ADD_DIR ''/d'' None 5 example_dir_parked) = []"
  by code_simp

text \<open>
  The same holds in the other order of arrival: a removal that arrives while the
  creation for the same path and inode is parked calls the \<^verbatim>\<open>resolve\<close> of that creation.
\<close>

lemma unlinkLock_same_path:
  fixes A :: Path and ms :: "int option" and now :: int
  assumes "I \<noteq> 0" and "add_locks (fileSystemLocker t w) I = Some a"
    and "c_inodeNumber a = I" and "c_inodeType a = t" and "c_targetPath a = A"
  defines "c \<equiv> \<lparr> cid = nextClosure w, c_inodeNumber = I, c_targetPath = A, c_inodeType = t \<rparr>"
  defines "w2 \<equiv> unlinkLock (Some I) A t ms now w"
  shows "emitted w2 = emitted w @
           (if t = FILE \<and> stats (fileSystemStateManager w) A \<noteq> None
            then [(now, CHANGE, A, None)] else [])"
    and "add_locks (fileSystemLocker t w2) I = None"
    and "unlink_locks (fileSystemLocker t w2) I = None"
    and "resolvers w2 = filter (\<lambda>r. fst r \<noteq> AddFree a \<and> fst r \<noteq> UnlinkFree c) (resolvers w)"
proof -
  let ?d = "now + (case ms of None \<Rightarrow> renameTimeout | Some x \<Rightarrow> x)"
  show "emitted w2 = emitted w @
           (if t = FILE \<and> stats (fileSystemStateManager w) A \<noteq> None
            then [(now, CHANGE, A, None)] else [])"
    unfolding w2_def using assms(1-5)
    by (simp add: unlinkLock_def falsy_def Let_def resolve_def overridden_def lockEvent_change_def)
  show "add_locks (fileSystemLocker t w2) I = None"
    unfolding w2_def using assms(1-5)
    by (simp add: unlinkLock_def falsy_def Let_def resolve_def overridden_def lockEvent_change_def)
  show "unlink_locks (fileSystemLocker t w2) I = None"
    unfolding w2_def using assms(1-5)
    by (simp add: unlinkLock_def falsy_def Let_def resolve_def overridden_def lockEvent_change_def)
  have "resolvers w2 = filter (\<lambda>r. fst r \<noteq> UnlinkFree c)
                         (filter (\<lambda>r. fst r \<noteq> AddFree a) (map_set (UnlinkFree c) ?d (resolvers w)))"
    unfolding w2_def c_def using assms(1-5)
    by (simp add: unlinkLock_def falsy_def Let_def resolve_def overridden_def lockEvent_change_def)
  also have "\<dots> = filter (\<lambda>r. fst r \<noteq> AddFree a)
                         (filter (\<lambda>r. fst r \<noteq> UnlinkFree c) (map_set (UnlinkFree c) ?d (resolvers w)))"
    by (rule filter_swap)
  also have "\<dots> = filter (\<lambda>r. fst r \<noteq> AddFree a)
                         (filter (\<lambda>r. fst r \<noteq> UnlinkFree c) (resolvers w))"
    by (simp only: filter_map_set)
  also have "\<dots> = filter (\<lambda>r. fst r \<noteq> AddFree a \<and> fst r \<noteq> UnlinkFree c) (resolvers w)"
    unfolding filter_filter by (rule filter_cong) auto
  finally show "resolvers w2 = filter (\<lambda>r. fst r \<noteq> AddFree a \<and> fst r \<noteq> UnlinkFree c) (resolvers w)" .
qed

section \<open>Properties of the rename correlation\<close>

lemma resolve_loop_skip:
  "\<forall>r \<in> set rs. for_lock I t r \<longrightarrow> \<not> due now r \<Longrightarrow>
   resolve_loop now rs w = resolve_loop now (filter (\<lambda>r. \<not> for_lock I t r) rs) w"
proof (induction rs arbitrary: w)
  case Nil
  then show ?case by simp
next
  case (Cons r rs)
  obtain fn d where r: "r = (fn, d)" by (cases r)
  have IH: "resolve_loop now rs w' = resolve_loop now (filter (\<lambda>r. \<not> for_lock I t r) rs) w'" for w'
    using Cons.IH Cons.prems by simp
  show ?case
  proof (cases "for_lock I t r")
    case True
    then have "\<not> due now r" using Cons.prems by simp
    then have "d > now" using r by (simp add: due_def)
    then show ?thesis using True r IH by simp
  next
    case False
    then show ?thesis using r IH by simp
  qed
qed

lemma call_resolver_fsm [simp]:
  "fileSystemStateManager (call_resolver fn now w) = fileSystemStateManager w"
  by (cases fn) (simp_all add: addLock_free_def unlinkLock_free_def)

lemma resolve_loop_fsm [simp]:
  "fileSystemStateManager (resolve_loop now rs w) = fileSystemStateManager w"
proof (induction rs arbitrary: w)
  case Nil
  then show ?case by simp
next
  case (Cons r rs)
  obtain fn d where r: "r = (fn, d)" by (cases r)
  show ?case unfolding r by (simp add: Cons.IH)
qed

lemma tick_fsm [simp]: "fileSystemStateManager (tick now w) = fileSystemStateManager w"
  by (simp add: tick_def LockResolver_resolve_def Let_def)

lemma run_ticks_fsm [simp]: "fileSystemStateManager (run_ticks ticks w) = fileSystemStateManager w"
  by (induction ticks arbitrary: w) simp_all

lemma free_locker:
  "fileSystemLocker t (addLock_free c now w) =
     (if t = c_inodeType c then locker_removeLock (c_inodeNumber c) (fileSystemLocker t w)
      else fileSystemLocker t w)"
  "fileSystemLocker t (unlinkLock_free c now w) =
     (if t = c_inodeType c then locker_removeUnlink (c_inodeNumber c) (fileSystemLocker t w)
      else fileSystemLocker t w)"
  by (simp_all add: addLock_free_def unlinkLock_free_def)

text \<open>Calling a resolver of another lock leaves the locks of the inode alone.\<close>

lemma call_resolver_frame:
  assumes "\<not> for_lock I t (fn, d)"
  shows "add_locks (fileSystemLocker t (call_resolver fn now (LockResolver_remove fn w))) I
           = add_locks (fileSystemLocker t w) I"
    and "unlink_locks (fileSystemLocker t (call_resolver fn now (LockResolver_remove fn w))) I
           = unlink_locks (fileSystemLocker t w) I"
    and "pending_for I t (call_resolver fn now (LockResolver_remove fn w)) = pending_for I t w"
proof -
  show "add_locks (fileSystemLocker t (call_resolver fn now (LockResolver_remove fn w))) I
           = add_locks (fileSystemLocker t w) I"
    using assms by (cases fn) (auto simp: free_locker for_lock_def)
  show "unlink_locks (fileSystemLocker t (call_resolver fn now (LockResolver_remove fn w))) I
           = unlink_locks (fileSystemLocker t w) I"
    using assms by (cases fn) (auto simp: free_locker for_lock_def)
  have "for_lock I t r \<Longrightarrow> fst r \<noteq> fn" for r
    using assms by (auto simp: for_lock_def)
  then have "filter (for_lock I t) (filter (\<lambda>r. fst r \<noteq> fn) rs) = filter (for_lock I t) rs" for rs
    by (induction rs) auto
  then show "pending_for I t (call_resolver fn now (LockResolver_remove fn w)) = pending_for I t w"
    by (simp add: pending_for_def call_resolver_resolvers)
qed

lemma resolve_loop_frame:
  "\<forall>r \<in> set rs. \<not> for_lock I t r \<Longrightarrow>
   add_locks (fileSystemLocker t (resolve_loop now rs w)) I = add_locks (fileSystemLocker t w) I \<and>
   unlink_locks (fileSystemLocker t (resolve_loop now rs w)) I = unlink_locks (fileSystemLocker t w) I \<and>
   pending_for I t (resolve_loop now rs w) = pending_for I t w"
proof (induction rs arbitrary: w)
  case Nil
  then show ?case by simp
next
  case (Cons r rs)
  obtain fn d where r: "r = (fn, d)" by (cases r)
  have nf: "\<not> for_lock I t (fn, d)" using Cons.prems r by simp
  have rest: "\<forall>r \<in> set rs. \<not> for_lock I t r" using Cons.prems by simp
  show ?case
  proof (cases "d > now")
    case True
    then show ?thesis unfolding r using Cons.IH [OF rest, of w] by simp
  next
    case False
    then have "resolve_loop now (r # rs) w = resolve_loop now rs (call_resolver fn now (LockResolver_remove fn w))"
      using r by simp
    then show ?thesis
      using Cons.IH [OF rest, of "call_resolver fn now (LockResolver_remove fn w)"]
        call_resolver_frame [OF nf, of now w]
      by simp
  qed
qed

lemma pending_for_reset [simp]: "pending_for I t (LockResolver_reset w) = pending_for I t w"
  by (simp add: pending_for_def)

text \<open>A tick that is early for every timer of the inode leaves its locks and timers alone.\<close>

lemma tick_frame:
  assumes "undue I t now w"
  shows "add_locks (fileSystemLocker t (tick now w)) I = add_locks (fileSystemLocker t w) I \<and>
         unlink_locks (fileSystemLocker t (tick now w)) I = unlink_locks (fileSystemLocker t w) I \<and>
         pending_for I t (tick now w) = pending_for I t w"
proof -
  have skip: "resolve_loop now (resolvers w) w
                = resolve_loop now (filter (\<lambda>r. \<not> for_lock I t r) (resolvers w)) w"
    using assms by (intro resolve_loop_skip) (auto simp: undue_def pending_for_def)
  have "\<forall>r \<in> set (filter (\<lambda>r. \<not> for_lock I t r) (resolvers w)). \<not> for_lock I t r" by simp
  note frame = resolve_loop_frame [OF this, of now w]
  show ?thesis
    using frame by (simp add: tick_def LockResolver_resolve_def Let_def skip)
qed

lemma emitted_emit_cong:
  "fileSystemStateManager w = fileSystemStateManager w' \<Longrightarrow> emitted w = emitted w' \<Longrightarrow>
   emitted (emit i p t now w) = emitted (emit i p t now w')"
  by (simp add: emit_def split: option.splits)

lemma call_resolver_emitted_cong:
  assumes "fileSystemStateManager w = fileSystemStateManager w'" and "emitted w = emitted w'"
  shows "emitted (call_resolver fn now w) = emitted (call_resolver fn now w')"
proof (cases fn)
  case (AddFree c)
  show ?thesis
    unfolding AddFree call_resolver.simps addLock_free_def
    by (rule emitted_emit_cong) (simp_all add: assms)
next
  case (UnlinkFree c)
  then show ?thesis by (simp add: unlinkLock_free_def assms)
qed

lemma call_resolver_locker_cong:
  "add_locks (fileSystemLocker t' w) i = add_locks (fileSystemLocker t' w') i \<Longrightarrow>
   add_locks (fileSystemLocker t' (call_resolver fn now w)) i
     = add_locks (fileSystemLocker t' (call_resolver fn now w')) i"
  "unlink_locks (fileSystemLocker t' w) i = unlink_locks (fileSystemLocker t' w') i \<Longrightarrow>
   unlink_locks (fileSystemLocker t' (call_resolver fn now w)) i
     = unlink_locks (fileSystemLocker t' (call_resolver fn now w')) i"
proof -
  show "add_locks (fileSystemLocker t' w) i = add_locks (fileSystemLocker t' w') i \<Longrightarrow>
   add_locks (fileSystemLocker t' (call_resolver fn now w)) i
     = add_locks (fileSystemLocker t' (call_resolver fn now w')) i"
    by (cases fn) (auto simp: free_locker)
  show "unlink_locks (fileSystemLocker t' w) i = unlink_locks (fileSystemLocker t' w') i \<Longrightarrow>
   unlink_locks (fileSystemLocker t' (call_resolver fn now w)) i
     = unlink_locks (fileSystemLocker t' (call_resolver fn now w')) i"
    by (cases fn) (auto simp: free_locker)
qed

lemma same_but_for_call:
  assumes "same_but_for I t w w'"
  shows "same_but_for I t (call_resolver fn now (LockResolver_remove fn w))
           (call_resolver fn now (LockResolver_remove fn w'))"
proof -
  have f: "fileSystemStateManager w = fileSystemStateManager w'" and e: "emitted w = emitted w'"
    and r: "filter (\<lambda>r. \<not> for_lock I t r) (resolvers w) = filter (\<lambda>r. \<not> for_lock I t r) (resolvers w')"
    using assms by (simp_all add: same_but_for_def)
  have l: "t' \<noteq> t \<or> i \<noteq> I \<Longrightarrow>
        add_locks (fileSystemLocker t' w) i = add_locks (fileSystemLocker t' w') i \<and>
        unlink_locks (fileSystemLocker t' w) i = unlink_locks (fileSystemLocker t' w') i" for t' i
    using assms by (simp add: same_but_for_def)
  have e': "emitted (call_resolver fn now (LockResolver_remove fn w))
              = emitted (call_resolver fn now (LockResolver_remove fn w'))"
    by (rule call_resolver_emitted_cong) (simp_all add: f e)
  have l': "t' \<noteq> t \<or> i \<noteq> I \<Longrightarrow>
        add_locks (fileSystemLocker t' (call_resolver fn now (LockResolver_remove fn w))) i
          = add_locks (fileSystemLocker t' (call_resolver fn now (LockResolver_remove fn w'))) i \<and>
        unlink_locks (fileSystemLocker t' (call_resolver fn now (LockResolver_remove fn w))) i
          = unlink_locks (fileSystemLocker t' (call_resolver fn now (LockResolver_remove fn w'))) i" for t' i
  proof -
    assume "t' \<noteq> t \<or> i \<noteq> I"
    from l [OF this]
    have a: "add_locks (fileSystemLocker t' (LockResolver_remove fn w)) i
               = add_locks (fileSystemLocker t' (LockResolver_remove fn w')) i"
      and u: "unlink_locks (fileSystemLocker t' (LockResolver_remove fn w)) i
               = unlink_locks (fileSystemLocker t' (LockResolver_remove fn w')) i"
      by simp_all
    from call_resolver_locker_cong(1) [OF a] call_resolver_locker_cong(2) [OF u]
    show ?thesis by (rule conjI)
  qed
  have sw: "filter P (filter Q (filter Q xs)) = filter Q (filter Q (filter P xs))"
    for P Q :: "Resolver \<times> int \<Rightarrow> bool" and xs
    by (induction xs) auto
  let ?NF = "\<lambda>r. \<not> for_lock I t r" and ?F = "\<lambda>r :: Resolver \<times> int. fst r \<noteq> fn"
  have "filter ?NF (resolvers (call_resolver fn now (LockResolver_remove fn w)))
          = filter ?NF (filter ?F (filter ?F (resolvers w)))"
    by (simp add: call_resolver_resolvers)
  also have "\<dots> = filter ?F (filter ?F (filter ?NF (resolvers w)))"
    by (rule sw)
  also have "\<dots> = filter ?F (filter ?F (filter ?NF (resolvers w')))"
    by (simp only: r)
  also have "\<dots> = filter ?NF (filter ?F (filter ?F (resolvers w')))"
    by (rule sw [symmetric])
  also have "\<dots> = filter ?NF (resolvers (call_resolver fn now (LockResolver_remove fn w')))"
    by (simp add: call_resolver_resolvers)
  finally have r': "filter ?NF (resolvers (call_resolver fn now (LockResolver_remove fn w)))
        = filter ?NF (resolvers (call_resolver fn now (LockResolver_remove fn w')))" .
  have f': "fileSystemStateManager (call_resolver fn now (LockResolver_remove fn w))
              = fileSystemStateManager (call_resolver fn now (LockResolver_remove fn w'))"
    by (simp add: f)
  show ?thesis
    unfolding same_but_for_def
  proof (intro conjI allI impI)
    show "fileSystemStateManager (call_resolver fn now (LockResolver_remove fn w))
              = fileSystemStateManager (call_resolver fn now (LockResolver_remove fn w'))"
      by (rule f')
    show "emitted (call_resolver fn now (LockResolver_remove fn w))
              = emitted (call_resolver fn now (LockResolver_remove fn w'))"
      by (rule e')
    show "filter ?NF (resolvers (call_resolver fn now (LockResolver_remove fn w)))
        = filter ?NF (resolvers (call_resolver fn now (LockResolver_remove fn w')))"
      by (rule r')
  next
    fix t' i
    assume "t' \<noteq> t \<or> i \<noteq> I"
    from l' [OF this]
    show "add_locks (fileSystemLocker t' (call_resolver fn now (LockResolver_remove fn w))) i
          = add_locks (fileSystemLocker t' (call_resolver fn now (LockResolver_remove fn w'))) i"
      by (rule conjunct1)
  next
    fix t' i
    assume "t' \<noteq> t \<or> i \<noteq> I"
    from l' [OF this]
    show "unlink_locks (fileSystemLocker t' (call_resolver fn now (LockResolver_remove fn w))) i
          = unlink_locks (fileSystemLocker t' (call_resolver fn now (LockResolver_remove fn w'))) i"
      by (rule conjunct2)
  qed
qed

lemma same_but_for_loop:
  "same_but_for I t w w' \<Longrightarrow> same_but_for I t (resolve_loop now rs w) (resolve_loop now rs w')"
proof (induction rs arbitrary: w w')
  case Nil
  then show ?case by simp
next
  case (Cons r rs)
  obtain fn d where r: "r = (fn, d)" by (cases r)
  show ?case
  proof (cases "d > now")
    case True
    then show ?thesis unfolding r using Cons.IH [OF Cons.prems] by simp
  next
    case False
    then show ?thesis unfolding r
      using Cons.IH [OF same_but_for_call [OF Cons.prems, of fn now]] by simp
  qed
qed

lemma same_but_for_reset:
  "same_but_for I t (LockResolver_reset w) w' = same_but_for I t w w'"
  "same_but_for I t w (LockResolver_reset w') = same_but_for I t w w'"
  by (simp_all add: same_but_for_def)

lemma same_but_for_resolve:
  assumes "same_but_for I t w w'" and "undue I t now w" and "undue I t now w'"
  shows "same_but_for I t (LockResolver_resolve now w) (LockResolver_resolve now w')"
proof -
  let ?rs = "filter (\<lambda>r. \<not> for_lock I t r) (resolvers w)"
  have rs: "filter (\<lambda>r. \<not> for_lock I t r) (resolvers w') = ?rs"
    using assms(1) by (simp add: same_but_for_def)
  have a: "resolve_loop now (resolvers w) w = resolve_loop now ?rs w"
    using assms(2) by (intro resolve_loop_skip) (auto simp: undue_def pending_for_def)
  have b: "resolve_loop now (resolvers w') w' = resolve_loop now ?rs w'"
    unfolding rs [symmetric]
    using assms(3) by (intro resolve_loop_skip) (auto simp: undue_def pending_for_def)
  have "same_but_for I t (resolve_loop now ?rs w) (resolve_loop now ?rs w')"
    by (rule same_but_for_loop [OF assms(1)])
  then show ?thesis
    by (simp add: LockResolver_resolve_def Let_def a b same_but_for_reset)
qed

lemma same_but_for_resolve_none:
  assumes "same_but_for I t w w'" and "undue I t now w" and "resolvers w' = []"
  shows "same_but_for I t (LockResolver_resolve now w) w'"
proof -
  have "filter (\<lambda>r. \<not> for_lock I t r) (resolvers w) = []"
    using assms(1,3) by (simp add: same_but_for_def)
  moreover have "resolve_loop now (resolvers w) w
      = resolve_loop now (filter (\<lambda>r. \<not> for_lock I t r) (resolvers w)) w"
    using assms(2) by (intro resolve_loop_skip) (auto simp: undue_def pending_for_def)
  ultimately have "resolve_loop now (resolvers w) w = w" by simp
  then show ?thesis
    using assms(1) by (simp add: LockResolver_resolve_def Let_def same_but_for_reset)
qed

lemma same_but_for_sym: "same_but_for I t w w' \<Longrightarrow> same_but_for I t w' w"
  by (simp add: same_but_for_def)

lemma timer_wf_tick: "timer_wf w \<Longrightarrow> timer_wf (tick now w)"
  by (auto simp: timer_wf_def tick_def LockResolver_resolve_def Let_def LockResolver_reset_def)

text \<open>
  States that differ only in the locks and timers of one inode emit the same events in
  a tick that is early for those timers.
\<close>

lemma same_but_for_tick:
  assumes "same_but_for I t w w'" and "undue I t now w" and "undue I t now w'"
    and "timer_wf w" and "timer_wf w'"
  shows "same_but_for I t (tick now w) (tick now w')"
proof (cases "lr_intervalId w")
  case True
  note on = this
  show ?thesis
  proof (cases "lr_intervalId w'")
    case True
    with on same_but_for_resolve [OF assms(1-3)] show ?thesis by (simp add: tick_def)
  next
    case False
    then have "resolvers w' = []" using assms(5) by (auto simp: timer_wf_def)
    from same_but_for_resolve_none [OF assms(1,2) this] on False
    show ?thesis by (simp add: tick_def)
  qed
next
  case False
  note off = this
  then have none: "resolvers w = []" using assms(4) by (auto simp: timer_wf_def)
  show ?thesis
  proof (cases "lr_intervalId w'")
    case True
    from same_but_for_resolve_none [OF same_but_for_sym [OF assms(1)] assms(3) none]
    have "same_but_for I t (LockResolver_resolve now w') w" .
    then show ?thesis using off True by (simp add: tick_def same_but_for_sym)
  next
    case False
    with off assms(1) show ?thesis by (simp add: tick_def)
  qed
qed

text \<open>
  Ticks before the deadline of the one pending timer of an inode: the state keeps the
  locks and the timer of the inode and emits what the state without them emits.
\<close>

lemma run_ticks_waiting:
  assumes "same_but_for I t w w'" and "timer_wf w" and "timer_wf w'"
    and "pending_for I t w = [(fn, d)]" and "pending_for I t w' = []"
    and "\<forall>now \<in> set ticks. now < d"
  shows "same_but_for I t (run_ticks ticks w) (run_ticks ticks w') \<and>
         pending_for I t (run_ticks ticks w) = [(fn, d)] \<and>
         add_locks (fileSystemLocker t (run_ticks ticks w)) I = add_locks (fileSystemLocker t w) I \<and>
         unlink_locks (fileSystemLocker t (run_ticks ticks w)) I = unlink_locks (fileSystemLocker t w) I"
  using assms
proof (induction ticks arbitrary: w w')
  case Nil
  then show ?case by simp
next
  case (Cons now ticks)
  have early: "now < d" using Cons.prems(6) by simp
  have u: "undue I t now w" using Cons.prems(4) early by (simp add: undue_def due_def)
  have u': "undue I t now w'" using Cons.prems(5) by (simp add: undue_def)
  note fr = tick_frame [OF u] and fr' = tick_frame [OF u']
  have s: "same_but_for I t (tick now w) (tick now w')"
    by (rule same_but_for_tick [OF Cons.prems(1) u u' Cons.prems(2,3)])
  have p: "pending_for I t (tick now w) = [(fn, d)]" using fr Cons.prems(4) by simp
  have p': "pending_for I t (tick now w') = []" using fr' Cons.prems(5) by simp
  have rest: "\<forall>now \<in> set ticks. now < d" using Cons.prems(6) by simp
  from Cons.IH [OF s timer_wf_tick [OF Cons.prems(2)] timer_wf_tick [OF Cons.prems(3)] p p' rest] fr
  show ?case by simp
qed

lemma pending_for_filter:
  "filter (for_lock I t) (filter P rs) = filter P (filter (for_lock I t) rs)"
  by (rule filter_swap)

text \<open>Parking a creation when no removal is parked for the inode.\<close>

lemma addLock_parks:
  fixes B :: Path and ms :: "int option" and now :: int
  assumes "I \<noteq> 0" and "unlink_locks (fileSystemLocker t w) I = None"
  defines "c \<equiv> \<lparr> cid = nextClosure w, c_inodeNumber = I, c_targetPath = B, c_inodeType = t \<rparr>"
  defines "d \<equiv> now + (case ms of None \<Rightarrow> renameTimeout | Some x \<Rightarrow> x)"
  shows "emitted (addLock (Some I) B t ms now w) = emitted w"
    and "resolvers (addLock (Some I) B t ms now w) = map_set (AddFree c) d (resolvers w)"
    and "lr_intervalId (addLock (Some I) B t ms now w)"
    and "fileSystemStateManager (addLock (Some I) B t ms now w) = fileSystemStateManager w"
    and "fileSystemLocker t' (addLock (Some I) B t ms now w) =
           (if t' = t then locker_addLock I c (fileSystemLocker t w) else fileSystemLocker t' w)"
  using assms(1,2) by (simp_all add: addLock_def falsy_def Let_def c_def d_def resolve_not_parked)

lemma pending_for_registered:
  assumes "pending_for I t w = []" and "for_lock I t (fn, d)"
  shows "filter (for_lock I t) (map_set fn d (resolvers w)) = [(fn, d)]"
proof -
  have "fn \<notin> fst ` set (resolvers w)"
  proof
    assume "fn \<in> fst ` set (resolvers w)"
    then obtain d' where m: "(fn, d') \<in> set (resolvers w)" by auto
    have "for_lock I t (fn, d')" using assms(2) by (simp add: for_lock_def)
    with m have "(fn, d') \<in> set (pending_for I t w)" by (simp add: pending_for_def)
    with assms(1) show False by simp
  qed
  then show ?thesis
    using assms by (simp add: map_set_new pending_for_def)
qed

lemma others_registered:
  assumes "pending_for I t w = []" and "for_lock I t (fn, d)"
  shows "filter (\<lambda>r. \<not> for_lock I t r) (map_set fn d (resolvers w))
           = filter (\<lambda>r. \<not> for_lock I t r) (resolvers w)"
proof -
  have "fn \<notin> fst ` set (resolvers w)"
  proof
    assume "fn \<in> fst ` set (resolvers w)"
    then obtain d' where m: "(fn, d') \<in> set (resolvers w)" by auto
    have "for_lock I t (fn, d')" using assms(2) by (simp add: for_lock_def)
    with m have "(fn, d') \<in> set (pending_for I t w)" by (simp add: pending_for_def)
    with assms(1) show False by simp
  qed
  then show ?thesis
    using assms by (simp add: map_set_new)
qed

text \<open>The state after a removal was parked on an idle inode.\<close>

lemma removal_parked:
  fixes A :: Path and ms :: "int option" and now :: int
  assumes "I \<noteq> 0" and "idle I t w" and "timer_wf w"
  defines "c \<equiv> \<lparr> cid = nextClosure w, c_inodeNumber = I, c_targetPath = A, c_inodeType = t \<rparr>"
  defines "w1 \<equiv> unlinkLock (Some I) A t ms now w"
  shows "same_but_for I t w1 w"
    and "pending_for I t w1 = [(UnlinkFree c, now + (case ms of None \<Rightarrow> renameTimeout | Some x \<Rightarrow> x))]"
    and "timer_wf w1"
    and "add_locks (fileSystemLocker t w1) I = None"
    and "unlink_locks (fileSystemLocker t w1) I = Some c"
    and "emitted w1 = emitted w"
proof -
  have a: "add_locks (fileSystemLocker t w) I = None" and p: "pending_for I t w = []"
    using assms(2) by (simp_all add: idle_def)
  note parks = unlinkLock_parks [where A = A and ms = ms and now = now, OF assms(1) a]
  have f: "for_lock I t (UnlinkFree c, d)" for d by (simp add: for_lock_def c_def)
  show "same_but_for I t w1 w"
    unfolding same_but_for_def w1_def
    using parks others_registered [OF p f] by (auto simp: c_def)
  show "pending_for I t w1 = [(UnlinkFree c, now + (case ms of None \<Rightarrow> renameTimeout | Some x \<Rightarrow> x))]"
    unfolding w1_def pending_for_def parks(2) c_def [symmetric]
    using pending_for_registered [OF p f] by simp
  show "timer_wf w1" unfolding w1_def timer_wf_def using parks(3) by simp
  show "add_locks (fileSystemLocker t w1) I = None" unfolding w1_def using parks(5) a by simp
  show "unlink_locks (fileSystemLocker t w1) I = Some c" unfolding w1_def using parks(5) by (simp add: c_def)
  show "emitted w1 = emitted w" unfolding w1_def by (rule parks(1))
qed

text \<open>The state after a creation was parked on an idle inode.\<close>

lemma creation_parked:
  fixes B :: Path and ms :: "int option" and now :: int
  assumes "I \<noteq> 0" and "idle I t w" and "timer_wf w"
  defines "c \<equiv> \<lparr> cid = nextClosure w, c_inodeNumber = I, c_targetPath = B, c_inodeType = t \<rparr>"
  defines "w1 \<equiv> addLock (Some I) B t ms now w"
  shows "same_but_for I t w1 w"
    and "pending_for I t w1 = [(AddFree c, now + (case ms of None \<Rightarrow> renameTimeout | Some x \<Rightarrow> x))]"
    and "timer_wf w1"
    and "add_locks (fileSystemLocker t w1) I = Some c"
    and "unlink_locks (fileSystemLocker t w1) I = None"
    and "emitted w1 = emitted w"
proof -
  have u: "unlink_locks (fileSystemLocker t w) I = None" and p: "pending_for I t w = []"
    using assms(2) by (simp_all add: idle_def)
  note parks = addLock_parks [where B = B and ms = ms and now = now, OF assms(1) u]
  have f: "for_lock I t (AddFree c, d)" for d by (simp add: for_lock_def c_def)
  show "same_but_for I t w1 w"
    unfolding same_but_for_def w1_def
    using parks others_registered [OF p f] by (auto simp: c_def)
  show "pending_for I t w1 = [(AddFree c, now + (case ms of None \<Rightarrow> renameTimeout | Some x \<Rightarrow> x))]"
    unfolding w1_def pending_for_def parks(2) c_def [symmetric]
    using pending_for_registered [OF p f] by simp
  show "timer_wf w1" unfolding w1_def timer_wf_def using parks(3) by simp
  show "add_locks (fileSystemLocker t w1) I = Some c" unfolding w1_def using parks(5) by (simp add: c_def)
  show "unlink_locks (fileSystemLocker t w1) I = None" unfolding w1_def using parks(5) u by simp
  show "emitted w1 = emitted w" unfolding w1_def by (rule parks(1))
qed

text \<open>A creation that arrives while the removal of the same inode is parked.\<close>

lemma addLock_resolves:
  fixes B :: Path and ms :: "int option" and now :: int
  assumes "I \<noteq> 0" and "unlink_locks (fileSystemLocker t w) I = Some u"
    and "c_inodeNumber u = I" and "c_inodeType u = t" and "c_targetPath u \<noteq> B"
    and "pending_for I t w = [(UnlinkFree u, d)]"
  defines "w2 \<equiv> addLock (Some I) B t ms now w"
  shows "emitted w2 = emitted w @ [(now, lockEvent_rename t, c_targetPath u, Some B)]"
    and "idle I t w2"
proof -
  let ?c = "\<lparr> cid = nextClosure w, c_inodeNumber = I, c_targetPath = B, c_inodeType = t \<rparr>"
  let ?d = "now + (case ms of None \<Rightarrow> renameTimeout | Some x \<Rightarrow> x)"
  show "emitted w2 = emitted w @ [(now, lockEvent_rename t, c_targetPath u, Some B)]"
    unfolding w2_def using addLock_parked [OF assms(2,1), of B ms now] assms(5) by auto
  have locks: "add_locks (fileSystemLocker t w2) I = None" "unlink_locks (fileSystemLocker t w2) I = None"
    unfolding w2_def using assms(1-5)
    by (simp_all add: addLock_def falsy_def Let_def resolve_def overridden_def lockEvent_change_def)
  have "resolvers w2 = filter (\<lambda>r. fst r \<noteq> UnlinkFree u)
                         (filter (\<lambda>r. fst r \<noteq> AddFree ?c) (map_set (AddFree ?c) ?d (resolvers w)))"
    unfolding w2_def using assms(1-5)
    by (simp add: addLock_def falsy_def Let_def resolve_def overridden_def lockEvent_change_def)
  then have "resolvers w2 = filter (\<lambda>r. fst r \<noteq> UnlinkFree u)
                         (filter (\<lambda>r. fst r \<noteq> AddFree ?c) (resolvers w))"
    by (simp only: filter_map_set)
  then have "pending_for I t w2 = filter (\<lambda>r. fst r \<noteq> UnlinkFree u)
                         (filter (\<lambda>r. fst r \<noteq> AddFree ?c) (pending_for I t w))"
    by (simp only: pending_for_def pending_for_filter)
  then have "pending_for I t w2 = []" using assms(6) by simp
  with locks show "idle I t w2" by (simp add: idle_def)
qed

text \<open>A removal that arrives while the creation of the same inode is parked.\<close>

lemma unlinkLock_resolves:
  fixes A :: Path and ms :: "int option" and now :: int
  assumes "I \<noteq> 0" and "add_locks (fileSystemLocker t w) I = Some a"
    and "c_inodeNumber a = I" and "c_inodeType a = t" and "c_targetPath a \<noteq> A"
    and "pending_for I t w = [(AddFree a, d)]"
  defines "w2 \<equiv> unlinkLock (Some I) A t ms now w"
  shows "emitted w2 = emitted w @ [(now, lockEvent_rename t, A, Some (c_targetPath a))]"
    and "idle I t w2"
proof -
  let ?c = "\<lparr> cid = nextClosure w, c_inodeNumber = I, c_targetPath = A, c_inodeType = t \<rparr>"
  let ?d = "now + (case ms of None \<Rightarrow> renameTimeout | Some x \<Rightarrow> x)"
  show "emitted w2 = emitted w @ [(now, lockEvent_rename t, A, Some (c_targetPath a))]"
    unfolding w2_def using assms(1-5)
    by (simp add: unlinkLock_def falsy_def Let_def resolve_def overridden_def lockEvent_change_def)
  have locks: "add_locks (fileSystemLocker t w2) I = None" "unlink_locks (fileSystemLocker t w2) I = None"
    unfolding w2_def using assms(1-5)
    by (simp_all add: unlinkLock_def falsy_def Let_def resolve_def overridden_def lockEvent_change_def)
  have "resolvers w2 = filter (\<lambda>r. fst r \<noteq> UnlinkFree ?c)
                         (filter (\<lambda>r. fst r \<noteq> AddFree a) (map_set (UnlinkFree ?c) ?d (resolvers w)))"
    unfolding w2_def using assms(1-5)
    by (simp add: unlinkLock_def falsy_def Let_def resolve_def overridden_def lockEvent_change_def)
  also have "\<dots> = filter (\<lambda>r. fst r \<noteq> AddFree a)
                         (filter (\<lambda>r. fst r \<noteq> UnlinkFree ?c) (map_set (UnlinkFree ?c) ?d (resolvers w)))"
    by (rule filter_swap)
  also have "\<dots> = filter (\<lambda>r. fst r \<noteq> AddFree a)
                         (filter (\<lambda>r. fst r \<noteq> UnlinkFree ?c) (resolvers w))"
    by (simp only: filter_map_set)
  finally have "pending_for I t w2 = filter (\<lambda>r. fst r \<noteq> AddFree a)
                         (filter (\<lambda>r. fst r \<noteq> UnlinkFree ?c) (pending_for I t w))"
    by (simp only: pending_for_def pending_for_filter)
  then have "pending_for I t w2 = []" using assms(6) by simp
  with locks show "idle I t w2" by (simp add: idle_def)
qed

lemma removal_then_creation:
  fixes A B :: Path and ms1 ms2 :: "int option" and t1 t2 :: int
  assumes "I \<noteq> 0" and "A \<noteq> B"
    and "getInodeNumber (fileSystemStateManager w) A (lockEvent_unlink t) (Some t) = Some I"
    and "getInodeNumber (fileSystemStateManager w) B (lockEvent_add t) (Some t) = Some I"
    and "idle I t w" and "timer_wf w"
    and "\<forall>now \<in> set ticks. now < t1 + (case ms1 of None \<Rightarrow> renameTimeout | Some x \<Rightarrow> x)"
  defines "w1 \<equiv> getLockTargetEvent (lockEvent_unlink t) A ms1 t1 w"
  defines "w2 \<equiv> getLockTargetEvent (lockEvent_add t) B ms2 t2 (run_ticks ticks w1)"
  shows "emitted w1 = emitted w \<and>
         emitted (run_ticks ticks w1) = emitted (run_ticks ticks w) \<and>
         emitted w2 = emitted (run_ticks ticks w1) @ [(t2, lockEvent_rename t, A, Some B)] \<and>
         idle I t w2"
proof -
  let ?c = "\<lparr> cid = nextClosure w, c_inodeNumber = I, c_targetPath = A, c_inodeType = t \<rparr>"
  let ?d = "t1 + (case ms1 of None \<Rightarrow> renameTimeout | Some x \<Rightarrow> x)"
  have w1: "w1 = unlinkLock (Some I) A t ms1 t1 w"
    unfolding w1_def by (rule getLockTargetEvent_unlink [OF assms(3)])
  note parked = removal_parked [where A = A and ms = ms1 and now = t1, OF assms(1,5,6), folded w1]
  have p0: "pending_for I t w = []" using assms(5) by (simp add: idle_def)
  note waiting = run_ticks_waiting [OF parked(1) parked(3) assms(6) parked(2) p0 assms(7)]
  have e: "emitted (run_ticks ticks w1) = emitted (run_ticks ticks w)"
    using waiting by (simp add: same_but_for_def)
  have u: "unlink_locks (fileSystemLocker t (run_ticks ticks w1)) I = Some ?c"
    using waiting parked(5) by simp
  have p: "pending_for I t (run_ticks ticks w1) = [(UnlinkFree ?c, ?d)]"
    using waiting by simp
  have "getInodeNumber (fileSystemStateManager (run_ticks ticks w1)) B (lockEvent_add t) (Some t) = Some I"
    using assms(4) parked(1) by (simp add: same_but_for_def)
  then have w2: "w2 = addLock (Some I) B t ms2 t2 (run_ticks ticks w1)"
    unfolding w2_def by (rule getLockTargetEvent_add)
  note resolved = addLock_resolves [where B = B and ms = ms2 and now = t2, OF assms(1) u _ _ _ p, folded w2]
  show ?thesis
    using parked(6) e resolved assms(2) by simp
qed

lemma creation_then_removal:
  fixes A B :: Path and ms1 ms2 :: "int option" and t1 t2 :: int
  assumes "I \<noteq> 0" and "A \<noteq> B"
    and "getInodeNumber (fileSystemStateManager w) A (lockEvent_unlink t) (Some t) = Some I"
    and "getInodeNumber (fileSystemStateManager w) B (lockEvent_add t) (Some t) = Some I"
    and "idle I t w" and "timer_wf w"
    and "\<forall>now \<in> set ticks. now < t1 + (case ms1 of None \<Rightarrow> renameTimeout | Some x \<Rightarrow> x)"
  defines "w1 \<equiv> getLockTargetEvent (lockEvent_add t) B ms1 t1 w"
  defines "w2 \<equiv> getLockTargetEvent (lockEvent_unlink t) A ms2 t2 (run_ticks ticks w1)"
  shows "emitted w1 = emitted w \<and>
         emitted (run_ticks ticks w1) = emitted (run_ticks ticks w) \<and>
         emitted w2 = emitted (run_ticks ticks w1) @ [(t2, lockEvent_rename t, A, Some B)] \<and>
         idle I t w2"
proof -
  let ?c = "\<lparr> cid = nextClosure w, c_inodeNumber = I, c_targetPath = B, c_inodeType = t \<rparr>"
  let ?d = "t1 + (case ms1 of None \<Rightarrow> renameTimeout | Some x \<Rightarrow> x)"
  have w1: "w1 = addLock (Some I) B t ms1 t1 w"
    unfolding w1_def by (rule getLockTargetEvent_add [OF assms(4)])
  note parked = creation_parked [where B = B and ms = ms1 and now = t1, OF assms(1,5,6), folded w1]
  have p0: "pending_for I t w = []" using assms(5) by (simp add: idle_def)
  note waiting = run_ticks_waiting [OF parked(1) parked(3) assms(6) parked(2) p0 assms(7)]
  have e: "emitted (run_ticks ticks w1) = emitted (run_ticks ticks w)"
    using waiting by (simp add: same_but_for_def)
  have a: "add_locks (fileSystemLocker t (run_ticks ticks w1)) I = Some ?c"
    using waiting parked(4) by simp
  have p: "pending_for I t (run_ticks ticks w1) = [(AddFree ?c, ?d)]"
    using waiting by simp
  have "getInodeNumber (fileSystemStateManager (run_ticks ticks w1)) A (lockEvent_unlink t) (Some t) = Some I"
    using assms(3) parked(1) by (simp add: same_but_for_def)
  then have w2: "w2 = unlinkLock (Some I) A t ms2 t2 (run_ticks ticks w1)"
    unfolding w2_def by (rule getLockTargetEvent_unlink)
  note resolved = unlinkLock_resolves [where A = A and ms = ms2 and now = t2, OF assms(1) a _ _ _ p, folded w2]
  show ?thesis
    using parked(6) e resolved assms(2) by simp
qed

text \<open>
  C2, as amended. Let a removal-class event for path \<open>A\<close> and a creation-class event
  for another path \<open>B\<close> of the same kind (both for files or both for directories) be
  recorded with the same inode \<open>I\<close> (not 0), let no lock and no timer of the inode be
  pending in its lock namespace when the first of the two arrives (the interval timer
  being set if any resolver is registered, as in every state the handler reaches: lemma
  \<open>reachable_wf\<close>), and
  let the second event arrive after timer ticks that are all before the deadline of the
  first. Then, whichever of the two arrives first: the first event emits nothing; while
  it waits, exactly the events are emitted that the other pending locks emit without it;
  the second event emits exactly the event renamed from \<open>A\<close> to \<open>B\<close>; and no lock and
  no timer of the inode is pending afterwards, so that neither lock is left to emit a
  removal of \<open>A\<close> or a creation of \<open>B\<close>.
\<close>

theorem rename_correlation:
  fixes A B :: Path and ms1 ms2 :: "int option" and t1 t2 :: int
  assumes "I \<noteq> 0" and "A \<noteq> B"
    and "getInodeNumber (fileSystemStateManager w) A (lockEvent_unlink t) (Some t) = Some I"
    and "getInodeNumber (fileSystemStateManager w) B (lockEvent_add t) (Some t) = Some I"
    and "idle I t w" and "timer_wf w"
    and "\<forall>now \<in> set ticks. now < t1 + (case ms1 of None \<Rightarrow> renameTimeout | Some x \<Rightarrow> x)"
  shows "(let w1 = getLockTargetEvent (lockEvent_unlink t) A ms1 t1 w;
              w2 = getLockTargetEvent (lockEvent_add t) B ms2 t2 (run_ticks ticks w1)
          in emitted w1 = emitted w \<and>
             emitted (run_ticks ticks w1) = emitted (run_ticks ticks w) \<and>
             emitted w2 = emitted (run_ticks ticks w1) @ [(t2, lockEvent_rename t, A, Some B)] \<and>
             idle I t w2) \<and>
         (let w1 = getLockTargetEvent (lockEvent_add t) B ms1 t1 w;
              w2 = getLockTargetEvent (lockEvent_unlink t) A ms2 t2 (run_ticks ticks w1)
          in emitted w1 = emitted w \<and>
             emitted (run_ticks ticks w1) = emitted (run_ticks ticks w) \<and>
             emitted w2 = emitted (run_ticks ticks w1) @ [(t2, lockEvent_rename t, A, Some B)] \<and>
             idle I t w2)"
  unfolding Let_def
  using removal_then_creation [OF assms, of ms2 t2] creation_then_removal [OF assms, of ms2 t2]
  by (rule conjI)

lemma example_renamed_state_facts:
  "getInodeNumber (fileSystemStateManager example_renamed_state) ''/a'' UNLINK (Some FILE) = Some 1"
  "getInodeNumber (fileSystemStateManager example_renamed_state) ''/b'' ADD (Some FILE) = Some 1"
  "idle 1 FILE example_renamed_state"
  "timer_wf example_renamed_state"
  "emitted (run_ticks [50, 100] example_renamed_state) = []"
proof -
  show "getInodeNumber (fileSystemStateManager example_renamed_state) ''/a'' UNLINK (Some FILE) = Some 1"
    by code_simp
  show "getInodeNumber (fileSystemStateManager example_renamed_state) ''/b'' ADD (Some FILE) = Some 1"
    by code_simp
  have r: "resolvers example_renamed_state = []"
    by code_simp
  have "add_locks (fileSystemLocker FILE example_renamed_state) 1 = None"
    and "unlink_locks (fileSystemLocker FILE example_renamed_state) 1 = None"
    by code_simp+
  then show "idle 1 FILE example_renamed_state"
    by (simp add: idle_def pending_for_def r)
  show "timer_wf example_renamed_state"
    by (simp add: timer_wf_def r)
  show "emitted (run_ticks [50, 100] example_renamed_state) = []"
    by code_simp
qed

theorem rename_correlation_witness:
  "emitted (getLockTargetEvent ADD ''/b'' None 120
      (run_ticks [50, 100] (getLockTargetEvent UNLINK ''/a'' None 0 example_renamed_state)))
     = [(120, RENAME, ''/a'', Some ''/b'')] \<and>
   emitted (getLockTargetEvent UNLINK ''/a'' None 120
      (run_ticks [50, 100] (getLockTargetEvent ADD ''/b'' None 0 example_renamed_state)))
     = [(120, RENAME, ''/a'', Some ''/b'')]"
  using rename_correlation [of 1 "''/a''" "''/b''" example_renamed_state FILE "[50, 100]" 0 None None 120]
    example_renamed_state_facts
  by (simp add: lockEvent_add_def lockEvent_unlink_def lockEvent_rename_def renameTimeout_def Let_def)

text \<open>
  C2 as stated fails when a lock of the inode is pending as the first of the two events
  arrives. A file is created as \<^verbatim>\<open>/a\<close> and renamed to \<^verbatim>\<open>/b\<close> 150 ms later: the
  creation of \<^verbatim>\<open>/a\<close> is still parked when the removal of \<^verbatim>\<open>/a\<close> arrives, and the
  removal resolves against it. The creation of \<^verbatim>\<open>/b\<close> arrives one millisecond later
  with the same inode, finds no removal parked, and is emitted as a creation when its
  timeout has passed; no rename is emitted.
\<close>

theorem creation_pending_counterexample:
  "getInodeNumber (fileSystemStateManager example_created_removed) ''/a'' UNLINK (Some FILE) = Some 1 \<and>
   getInodeNumber (fileSystemStateManager example_created_renamed) ''/b'' ADD (Some FILE) = Some 1 \<and>
   emitted (getLockTargetEvent ADD ''/b'' None 151 example_created_renamed) = [] \<and>
   emitted (run_ticks [200, 250, 300, 350, 400, 450]
              (getLockTargetEvent ADD ''/b'' None 151 example_created_renamed))
     = [(450, ADD, ''/b'', None)]"
  by code_simp

text \<open>The interval timer stays set while resolvers are registered.\<close>

lemma resolve_interval [simp]: "lr_intervalId (resolve c now w) = lr_intervalId w"
  by (simp add: resolve_def overridden_def Let_def split: option.splits)

lemma timer_wf_unlinkLock: "timer_wf w \<Longrightarrow> timer_wf (unlinkLock i A t ms now w)"
proof (cases "falsy i")
  case True
  assume "timer_wf w"
  with True show ?thesis by (simp add: unlinkLock_def timer_wf_def)
next
  case False
  then have "lr_intervalId (unlinkLock i A t ms now w)"
    by (simp add: unlinkLock_def Let_def split: option.splits)
  then show ?thesis by (simp add: timer_wf_def)
qed

lemma timer_wf_addLock: "timer_wf w \<Longrightarrow> timer_wf (addLock i A t ms now w)"
proof (cases "falsy i")
  case True
  assume "timer_wf w"
  with True show ?thesis by (simp add: addLock_def timer_wf_def)
next
  case False
  then have "lr_intervalId (addLock i A t ms now w)"
    by (simp add: addLock_def Let_def)
  then show ?thesis by (simp add: timer_wf_def)
qed

lemma timer_wf_getLockTargetEvent: "timer_wf w \<Longrightarrow> timer_wf (getLockTargetEvent ev A ms now w)"
  by (cases ev) (simp_all add: getLockTargetEvent_def processLock_def timer_wf_addLock timer_wf_unlinkLock)

lemma timer_wf_new: "timer_wf new_FileRenameHandler"
  by (simp add: timer_wf_def new_FileRenameHandler_def)

section \<open>Well-formed states of the handler\<close>

text \<open>An operation that only removes locks keeps the locks well-formed.\<close>

lemma locks_wf_fewer:
  assumes "locks_wf w"
    and "\<And>t i c. add_locks (fileSystemLocker t w') i = Some c \<Longrightarrow> add_locks (fileSystemLocker t w) i = Some c"
    and "\<And>t i c. unlink_locks (fileSystemLocker t w') i = Some c \<Longrightarrow> unlink_locks (fileSystemLocker t w) i = Some c"
  shows "locks_wf w'"
  using assms unfolding locks_wf_def by blast

lemma locks_wf_addLock_cleanup: "locks_wf w \<Longrightarrow> locks_wf (addLock_cleanup c w)"
  by (erule locks_wf_fewer) (auto split: if_splits)

lemma locks_wf_unlinkLock_cleanup: "locks_wf w \<Longrightarrow> locks_wf (unlinkLock_cleanup c w)"
  by (erule locks_wf_fewer) (auto split: if_splits)

lemma locks_wf_emitEvent [simp]: "locks_wf (emitEvent now ev p q w) = locks_wf w"
  by (simp add: locks_wf_def)

lemma locks_wf_emit [simp]: "locks_wf (emit i p t now w) = locks_wf w"
  by (simp add: locks_wf_def)

lemma locks_wf_resolve: "locks_wf w \<Longrightarrow> locks_wf (resolve c now w)"
  by (auto simp: resolve_def overridden_def Let_def locks_wf_addLock_cleanup locks_wf_unlinkLock_cleanup
      split: option.splits)

lemma locks_wf_call_resolver: "locks_wf w \<Longrightarrow> locks_wf (call_resolver fn now w)"
  by (cases fn) (simp_all add: addLock_free_def unlinkLock_free_def
      locks_wf_addLock_cleanup locks_wf_unlinkLock_cleanup)

lemma locks_wf_LockResolver_remove [simp]: "locks_wf (LockResolver_remove fn w) = locks_wf w"
  by (simp add: locks_wf_def)

lemma locks_wf_resolve_loop: "locks_wf w \<Longrightarrow> locks_wf (resolve_loop now rs w)"
proof (induction rs arbitrary: w)
  case Nil
  then show ?case by simp
next
  case (Cons r rs)
  obtain fn d where r: "r = (fn, d)" by (cases r)
  show ?case unfolding r using Cons.IH Cons.prems by (simp add: locks_wf_call_resolver)
qed

lemma locks_wf_tick: "locks_wf w \<Longrightarrow> locks_wf (tick now w)"
  using locks_wf_resolve_loop [of w now "resolvers w"]
  by (simp add: tick_def LockResolver_resolve_def Let_def locks_wf_def)

lemma locks_wf_addLock: "locks_wf w \<Longrightarrow> locks_wf (addLock i A t ms now w)"
proof (cases "falsy i")
  case True
  assume "locks_wf w"
  with True show ?thesis by (simp add: addLock_def)
next
  case False
  assume w: "locks_wf w"
  let ?c = "\<lparr> cid = nextClosure w, c_inodeNumber = the i, c_targetPath = A, c_inodeType = t \<rparr>"
  have "locks_wf (with_fileSystemLocker t (locker_addLock (the i) ?c)
          (LockResolver_add (AddFree ?c) (case ms of None \<Rightarrow> renameTimeout | Some x \<Rightarrow> x) now
             (w\<lparr> nextClosure := Suc (nextClosure w) \<rparr>)))"
    using w unfolding locks_wf_def by (auto split: if_splits)
  then show ?thesis using False by (simp add: addLock_def Let_def locks_wf_resolve)
qed

lemma locks_wf_unlinkLock: "locks_wf w \<Longrightarrow> locks_wf (unlinkLock i A t ms now w)"
proof (cases "falsy i")
  case True
  assume "locks_wf w"
  with True show ?thesis by (simp add: unlinkLock_def)
next
  case False
  assume w: "locks_wf w"
  let ?c = "\<lparr> cid = nextClosure w, c_inodeNumber = the i, c_targetPath = A, c_inodeType = t \<rparr>"
  have "locks_wf (with_fileSystemLocker t (locker_addUnlink (the i) ?c)
          (LockResolver_add (UnlinkFree ?c) (case ms of None \<Rightarrow> renameTimeout | Some x \<Rightarrow> x) now
             (w\<lparr> nextClosure := Suc (nextClosure w) \<rparr>)))"
    using w unfolding locks_wf_def by (auto split: if_splits)
  then show ?thesis using False
    by (simp add: unlinkLock_def Let_def locks_wf_resolve split: option.splits)
qed

lemma locks_wf_getLockTargetEvent: "locks_wf w \<Longrightarrow> locks_wf (getLockTargetEvent ev A ms now w)"
  by (cases ev) (simp_all add: getLockTargetEvent_def processLock_def locks_wf_addLock locks_wf_unlinkLock)

lemma locks_wf_new: "locks_wf new_FileRenameHandler"
  by (simp add: locks_wf_def new_FileRenameHandler_def new_FileSystemLocker_def fileSystemLocker_def)

lemma fileSystemLocker_handler_update [simp]:
  "fileSystemLocker t (handler_update p raw w) = fileSystemLocker t w"
  by (simp add: handler_update_def fileSystemLocker_def)

lemma fileSystemLocker_handler_reset [simp]:
  "fileSystemLocker t (handler_reset w) = locker_reset (fileSystemLocker t w)"
  by (simp add: handler_reset_def fileSystemLocker_def)

lemma wf_handler_step: "timer_wf w \<and> locks_wf w \<Longrightarrow> timer_wf (handler_step op w) \<and> locks_wf (handler_step op w)"
proof (cases op)
  case (Observe p raw)
  assume "timer_wf w \<and> locks_wf w"
  then show ?thesis using Observe
    by (simp add: timer_wf_def locks_wf_def) (simp add: handler_update_def)
next
  case (Event ev p ms now)
  assume "timer_wf w \<and> locks_wf w"
  then show ?thesis using Event
    by (simp add: timer_wf_getLockTargetEvent locks_wf_getLockTargetEvent)
next
  case (TimerTick now)
  assume "timer_wf w \<and> locks_wf w"
  then show ?thesis using TimerTick by (simp add: timer_wf_tick locks_wf_tick)
next
  case HandlerReset
  assume "timer_wf w \<and> locks_wf w"
  then show ?thesis using HandlerReset
    by (simp add: timer_wf_def locks_wf_def locker_reset_def) (simp add: handler_reset_def)
qed

lemma wf_handler_run:
  "timer_wf w \<and> locks_wf w \<Longrightarrow> timer_wf (handler_run ops w) \<and> locks_wf (handler_run ops w)"
proof (induction ops arbitrary: w)
  case Nil
  then show ?case by simp
next
  case (Cons op ops)
  show ?case using Cons.IH [OF wf_handler_step [OF Cons.prems]] by simp
qed

text \<open>
  In every state that the handler reaches the interval timer is set while resolvers are
  registered, and every parked lock was created for the inode and namespace of its key.
\<close>

lemma reachable_wf:
  "timer_wf (handler_run ops new_FileRenameHandler) \<and> locks_wf (handler_run ops new_FileRenameHandler)"
  by (rule wf_handler_run) (simp add: timer_wf_new locks_wf_new)

section \<open>Properties of the lock bypass\<close>

text \<open>
  Without an available inode a removal is emitted at once as the plain removal event,
  and so is a creation with no recorded inode or a recorded inode of the other type.
\<close>

lemma unavailable_inode_unlink:
  "falsy (getInodeNumber (fileSystemStateManager w) A (lockEvent_unlink t) (Some t)) \<Longrightarrow>
   getLockTargetEvent (lockEvent_unlink t) A ms now w = emitEvent now (lockEvent_unlink t) A None w"
  by (simp add: getLockTargetEvent_unlink [OF refl] unlinkLock_def)

lemma unavailable_inode_add:
  "getInodeNumber (fileSystemStateManager w) A (lockEvent_add t) (Some t) = None \<Longrightarrow>
   paths (fileSystemStateManager w) (- 1) = None \<Longrightarrow>
   getLockTargetEvent (lockEvent_add t) A ms now w = emitEvent now (lockEvent_add t) A None w"
  by (simp add: getLockTargetEvent_add [OF refl] addLock_def falsy_def emit_def smm_find_def)

text \<open>
  C10. With a recorded inode number 0 the lock protocol is bypassed, but \<open>emit\<close> still
  looks the inode up in the inode index: when another cached path has inode 0 as
  well, the creation is reported as a rename from that path, not as a plain \<open>ADD\<close>.
\<close>

theorem inode_zero_add_emits_rename:
  "getInodeNumber (fileSystemStateManager example_zero_state) ''/b'' ADD (Some FILE) = Some 0 \<and>
   emitted (getLockTargetEvent ADD ''/b'' None 5 example_zero_state) = [(5, RENAME, ''/x'', Some ''/b'')]"
  by code_simp

end
